theory Spec2Isabelle
  imports Main
begin

section \<open>The base ring\<close>

text \<open>
  The simulation fixes \<open>q = 2\<close> and \<open>R = GF(q)\<close>.  The two-element field is modelled by
  the type \<open>gf2\<close>; all matrix code below is written over an arbitrary field, so that
  every theorem holds for \<open>gf2\<close> in particular.
\<close>

datatype gf2 = Z2 | O2

instantiation gf2 :: field
begin

definition zero_gf2_def: "0 = Z2"

definition one_gf2_def: "1 = O2"

definition plus_gf2_def: "a + b = (if a = b then Z2 else O2)"

definition minus_gf2_def: "a - b = (if a = b then Z2 else O2)"

definition uminus_gf2_def: "- a = (a :: gf2)"

definition times_gf2_def: "a * b = (if a = O2 \<and> b = O2 then O2 else Z2)"

definition inverse_gf2_def: "inverse a = (a :: gf2)"

definition divide_gf2_def: "a div b = (if a = O2 \<and> b = O2 then O2 else Z2)"

instance
proof
  fix a b c :: gf2
  show "a + b + c = a + (b + c)"
    by (cases a; cases b; cases c) (simp_all add: plus_gf2_def)
  show "a + b = b + a"
    by (cases a; cases b) (simp_all add: plus_gf2_def)
  show "0 + a = a"
    by (cases a) (simp_all add: plus_gf2_def zero_gf2_def)
  show "- a + a = 0"
    by (cases a) (simp_all add: plus_gf2_def zero_gf2_def uminus_gf2_def)
  show "a - b = a + - b"
    by (cases a; cases b) (simp_all add: plus_gf2_def minus_gf2_def uminus_gf2_def)
  show "a * b * c = a * (b * c)"
    by (cases a; cases b; cases c) (simp_all add: times_gf2_def)
  show "a * b = b * a"
    by (cases a; cases b) (simp_all add: times_gf2_def)
  show "1 * a = a"
    by (cases a) (simp_all add: times_gf2_def one_gf2_def)
  show "(a + b) * c = a * c + b * c"
    by (cases a; cases b; cases c) (simp_all add: times_gf2_def plus_gf2_def)
  show "(0::gf2) \<noteq> 1"
    by (simp add: zero_gf2_def one_gf2_def)
  show "a \<noteq> 0 \<Longrightarrow> inverse a * a = 1"
    by (cases a) (simp_all add: times_gf2_def one_gf2_def zero_gf2_def inverse_gf2_def)
  show "a div b = a * inverse b"
    by (cases a; cases b) (simp_all add: times_gf2_def divide_gf2_def inverse_gf2_def)
  show "inverse (0::gf2) = 0"
    by (simp add: inverse_gf2_def)
qed

end

section \<open>Vectors and matrices over the base ring\<close>

text \<open>
  A vector is the list of its entries.  A matrix carries its number of rows and columns
  together with the list of its rows (row-major), so that matrices with no rows or no
  columns keep their shape, as they do in the computer algebra system the simulation
  runs on.
\<close>

datatype 'a matrix = Matrix (nrows: nat) (ncols: nat) (rows: "'a list list")

text \<open>
  The failures an operation can raise.  \<open>DimensionMismatch\<close>, \<open>Singular\<close> and
  \<open>IndexOutOfRange\<close> stand for the exceptions of the matrix library (operands of
  incompatible shape, inverse of a singular matrix, a column index outside the matrix).
  \<open>Inconsistent\<close> and \<open>GenerationFailed\<close> are the two further conditions of the
  specification's error taxonomy.
\<close>

datatype error = DimensionMismatch | Singular | IndexOutOfRange | Inconsistent | GenerationFailed

definition bind_err :: "error + 'a \<Rightarrow> ('a \<Rightarrow> error + 'b) \<Rightarrow> error + 'b" where
  "bind_err r f = (case r of Inl e \<Rightarrow> Inl e | Inr x \<Rightarrow> f x)"

definition zerov :: "nat \<Rightarrow> 'a::field list" where
  "zerov n = replicate n 0"

definition vadd :: "'a::field list \<Rightarrow> 'a list \<Rightarrow> 'a list" where
  "vadd u v = map2 (+) u v"

definition vsub :: "'a::field list \<Rightarrow> 'a list \<Rightarrow> 'a list" where
  "vsub u v = map2 (-) u v"

definition smult :: "'a::field \<Rightarrow> 'a list \<Rightarrow> 'a list" where
  "smult a v = map ((*) a) v"

definition dot :: "'a::field list \<Rightarrow> 'a list \<Rightarrow> 'a" where
  "dot u v = sum_list (map2 (*) u v)"

text \<open>
  \<open>vecmat n v A\<close> is the product \<open>v * A\<close> of a row vector with a matrix of \<open>n\<close> columns
  given by its rows: the linear combination of the rows of \<open>A\<close> with the entries of \<open>v\<close>
  as coefficients.
\<close>

fun vecmat :: "nat \<Rightarrow> 'a::field list \<Rightarrow> 'a list list \<Rightarrow> 'a list" where
  "vecmat n (a # c) (r # A) = vadd (smult a r) (vecmat n c A)"
| "vecmat n c A = zerov n"

definition wf_matrix :: "'a matrix \<Rightarrow> bool" where
  "wf_matrix A \<longleftrightarrow> length (rows A) = nrows A \<and> list_all (\<lambda>r. length r = ncols A) (rows A)"

definition vec_add :: "'a::field list \<Rightarrow> 'a list \<Rightarrow> error + 'a list" where
  "vec_add u v = (if length u = length v then Inr (vadd u v) else Inl DimensionMismatch)"

definition vec_sub :: "'a::field list \<Rightarrow> 'a list \<Rightarrow> error + 'a list" where
  "vec_sub u v = (if length u = length v then Inr (vsub u v) else Inl DimensionMismatch)"

definition vec_times_mat :: "'a::field list \<Rightarrow> 'a matrix \<Rightarrow> error + 'a list" where
  "vec_times_mat v A =
     (if length v = nrows A then Inr (vecmat (ncols A) v (rows A)) else Inl DimensionMismatch)"

definition mat_times :: "'a::field matrix \<Rightarrow> 'a matrix \<Rightarrow> error + 'a matrix" where
  "mat_times A B =
     (if ncols A = nrows B
      then Inr (Matrix (nrows A) (ncols B) (map (\<lambda>a. vecmat (ncols B) a (rows B)) (rows A)))
      else Inl DimensionMismatch)"

definition mat_add :: "'a::field matrix \<Rightarrow> 'a matrix \<Rightarrow> error + 'a matrix" where
  "mat_add A B =
     (if nrows A = nrows B \<and> ncols A = ncols B
      then Inr (Matrix (nrows A) (ncols A) (map2 vadd (rows A) (rows B)))
      else Inl DimensionMismatch)"

fun identity_rows :: "nat \<Rightarrow> 'a::field list list" where
  "identity_rows 0 = []"
| "identity_rows (Suc n) = (1 # zerov n) # map ((#) 0) (identity_rows n)"

definition identity_matrix :: "nat \<Rightarrow> 'a::field matrix" where
  "identity_matrix n = Matrix n n (identity_rows n)"

text \<open>The columns of a matrix with \<open>n\<close> columns, from left to right.\<close>

fun columns :: "nat \<Rightarrow> 'a list list \<Rightarrow> 'a list list" where
  "columns 0 A = []"
| "columns (Suc n) A = map hd A # columns n (map tl A)"

definition transpose_mat :: "'a matrix \<Rightarrow> 'a matrix" where
  "transpose_mat A = Matrix (ncols A) (nrows A) (columns (ncols A) (rows A))"

definition augment :: "'a matrix \<Rightarrow> 'a matrix \<Rightarrow> error + 'a matrix" where
  "augment A B =
     (if nrows A = nrows B
      then Inr (Matrix (nrows A) (ncols A + ncols B) (map2 (@) (rows A) (rows B)))
      else Inl DimensionMismatch)"

definition select :: "nat list \<Rightarrow> 'a list \<Rightarrow> 'a list" where
  "select J r = map ((!) r) J"

definition matrix_from_columns :: "'a matrix \<Rightarrow> nat list \<Rightarrow> error + 'a matrix" where
  "matrix_from_columns A J =
     (if list_all (\<lambda>j. j < ncols A) J
      then Inr (Matrix (nrows A) (length J) (map (select J) (rows A)))
      else Inl IndexOutOfRange)"

text \<open>\<open>matrix(R, 1, n)\<close> followed by the assignment of a vector to its only row.\<close>

definition row_matrix :: "nat \<Rightarrow> 'a list \<Rightarrow> error + 'a matrix" where
  "row_matrix n v = (if length v = n then Inr (Matrix 1 n [v]) else Inl DimensionMismatch)"

text \<open>\<open>matrix(R, n, 1, v)\<close>: the vector as a column.\<close>

definition column_matrix :: "nat \<Rightarrow> 'a list \<Rightarrow> error + 'a matrix" where
  "column_matrix n v =
     (if length v = n then Inr (Matrix n 1 (map (\<lambda>x. [x]) v)) else Inl DimensionMismatch)"

text \<open>\<open>vector(A)\<close> for a matrix with a single row or a single column: its entries in order.\<close>

definition vector_of :: "'a matrix \<Rightarrow> error + 'a list" where
  "vector_of A =
     (if nrows A = 1 \<or> ncols A = 1 then Inr (concat (rows A)) else Inl DimensionMismatch)"

text \<open>A slice \<open>xs[:i]\<close> with a possibly negative bound.\<close>

definition slice_upto :: "int \<Rightarrow> 'a list \<Rightarrow> 'a list" where
  "slice_upto i xs = (if 0 \<le> i then take (nat i) xs else take (length xs - nat (- i)) xs)"

section \<open>Row reduction\<close>

text \<open>
  Modelled from the spec: the reduced row echelon form, the pivot columns, the rank, the
  inverse and the right kernel are operations of the matrix library the simulation calls;
  only their calls are part of the repository.  The specification fixes a canonical scan
  of the columns, left to right and top to bottom, takes the rank to be the number of
  nonzero rows after row reduction, and lets the inverse of a matrix of rank below its
  size fail with \<open>Singular\<close>.  They are modelled here by Gauss-Jordan elimination.
\<close>

text \<open>The first row whose leading entry is nonzero, and the other rows in their order.\<close>

fun find_pivot :: "'a::field list list \<Rightarrow> ('a list \<times> 'a list list) option" where
  "find_pivot [] = None"
| "find_pivot (r # A) =
     (if hd r \<noteq> 0 then Some (r, A)
      else (case find_pivot A of None \<Rightarrow> None | Some (p, B) \<Rightarrow> Some (p, r # B)))"

text \<open>
  Back substitution: \<open>reduce_row v E\<close> subtracts from \<open>v\<close> the multiples of the pivot rows
  of the reduced matrix \<open>E\<close> that clear the entries of \<open>v\<close> in the pivot columns of \<open>E\<close>.
\<close>

fun reduce_row :: "'a::field list \<Rightarrow> 'a list list \<Rightarrow> 'a list" where
  "reduce_row [] E = []"
| "reduce_row (x # v) [] = x # v"
| "reduce_row (x # v) (r # E) =
     (if hd r \<noteq> 0 then 0 # reduce_row (vsub v (smult x (tl r))) (map tl E)
      else x # reduce_row v (map tl (r # E)))"

text \<open>
  \<open>rref_rows n A\<close>: the reduced row echelon form of the rows \<open>A\<close> of a matrix with \<open>n\<close>
  columns.  If the first column is zero, the rest of the matrix is reduced.  Otherwise the
  first row with a nonzero leading entry becomes the pivot row: it is scaled to leading
  entry 1 and moved to the top, the first column of every other row is cleared, the other
  rows are reduced, and the pivot row is cleared in their pivot columns.
\<close>

fun rref_rows :: "nat \<Rightarrow> 'a::field list list \<Rightarrow> 'a list list" where
  "rref_rows 0 A = A"
| "rref_rows (Suc n) A =
     (case find_pivot A of
        None \<Rightarrow> map ((#) 0) (rref_rows n (map tl A))
      | Some (p, B) \<Rightarrow>
          (let p1 = smult (inverse (hd p)) p;
               B1 = map (\<lambda>r. vsub r (smult (hd r) p1)) B;
               E = rref_rows n (map tl B1)
           in (1 # reduce_row (tl p1) E) # map ((#) 0) E))"

definition rref :: "'a::field matrix \<Rightarrow> 'a matrix" where
  "rref A = Matrix (nrows A) (ncols A) (rref_rows (ncols A) (rows A))"

text \<open>The index of the first nonzero entry of a row.\<close>

fun leading :: "'a::field list \<Rightarrow> nat option" where
  "leading [] = None"
| "leading (x # v) = (if x \<noteq> 0 then Some 0 else map_option Suc (leading v))"

text \<open>The pivot columns: the columns of the leading entries of the nonzero rows of the
  reduced row echelon form, in order.\<close>

definition pivot_cols :: "'a::field list list \<Rightarrow> nat list" where
  "pivot_cols E = List.map_filter leading E"

definition pivots :: "'a::field matrix \<Rightarrow> nat list" where
  "pivots A = pivot_cols (rows (rref A))"

text \<open>The rank: the number of nonzero rows of the reduced row echelon form.\<close>

definition rank :: "'a::field matrix \<Rightarrow> nat" where
  "rank A = length (filter (\<lambda>r. r \<noteq> zerov (ncols A)) (rows (rref A)))"

text \<open>
  The inverse of a square matrix, by reduction of the matrix augmented with the identity;
  the inverse of a singular matrix raises.
\<close>

definition inverse_mat :: "'a::field matrix \<Rightarrow> error + 'a matrix" where
  "inverse_mat A =
     (if nrows A \<noteq> ncols A then Inl DimensionMismatch
      else (let n = nrows A;
                E = rref_rows (n + n) (map2 (@) (rows A) (identity_rows n))
            in if map (take n) E = identity_rows n
               then Inr (Matrix n n (map (drop n) E))
               else Inl Singular))"

text \<open>
  Modelled from the spec: the right kernel basis of the matrix library, which is not part
  of the repository.  The specification derives it from the free-variable columns of the
  reduced row echelon form: \<open>kernel_rows n E\<close> has one basis vector for every column of
  \<open>E\<close> without a pivot, with entry 1 in that column, entry 0 in the other free columns,
  and the entries in the pivot columns obtained by back substitution.
\<close>

fun kernel_rows :: "nat \<Rightarrow> 'a::field list list \<Rightarrow> 'a list list" where
  "kernel_rows 0 E = []"
| "kernel_rows (Suc n) [] = (1 # zerov n) # map ((#) 0) (kernel_rows n [])"
| "kernel_rows (Suc n) (r # E) =
     (if hd r \<noteq> 0 then map (\<lambda>y. (- dot (tl r) y) # y) (kernel_rows n (map tl E))
      else (1 # zerov n) # map ((#) 0) (kernel_rows n (map tl (r # E))))"

definition right_kernel_matrix :: "'a::field matrix \<Rightarrow> 'a matrix" where
  "right_kernel_matrix A =
     (let K = kernel_rows (ncols A) (rows (rref A)) in Matrix (length K) (ncols A) K)"

section \<open>The random source\<close>

text \<open>
  The random number generator is an external collaborator.  It is modelled by the infinite
  sequence of ring elements it is going to produce; drawing a vector or a matrix consumes
  as many elements as it has entries and returns the remaining sequence.
\<close>

type_synonym 'a rand = "nat \<Rightarrow> 'a"

definition random_vector :: "nat \<Rightarrow> 'a rand \<Rightarrow> 'a list \<times> 'a rand" where
  "random_vector n rs = (map rs [0..<n], \<lambda>i. rs (i + n))"

definition random_mat :: "nat \<Rightarrow> nat \<Rightarrow> 'a rand \<Rightarrow> 'a matrix \<times> 'a rand" where
  "random_mat k n rs =
     (Matrix k n (map (\<lambda>i. map (\<lambda>j. rs (i * n + j)) [0..<n]) [0..<k]), \<lambda>i. rs (i + k * n))"

text \<open>A source that produces the elements of a list and zeros from then on, and the
  \<open>i\<close>-th matrix that successive draws of a \<open>k \<times> n\<close> matrix take from a source.\<close>

definition tape :: "'a::field list \<Rightarrow> 'a rand" where
  "tape xs = (\<lambda>i. if i < length xs then xs ! i else 0)"

definition nth_sample :: "nat \<Rightarrow> nat \<Rightarrow> 'a rand \<Rightarrow> nat \<Rightarrow> 'a matrix" where
  "nth_sample k n rs i = fst (random_mat k n (\<lambda>t. rs (t + i * (k * n))))"

section \<open>The cryptosystem and the attack\<close>

definition random_code :: "'a::field matrix \<Rightarrow> 'a rand \<Rightarrow> 'a list \<times> 'a rand" where
  "random_code G rs =
     (case random_vector (nrows G) rs of (v, rs1) \<Rightarrow> (vecmat (ncols G) v (rows G), rs1))"

text \<open>
  The rejection loop \<open>while True\<close>: a new matrix is drawn until one has full rank.  The
  loop has no bound, so the function is partial: \<open>None\<close> is the run that never returns.
\<close>

partial_function (option) random_nonsingular_matrix ::
  "nat \<Rightarrow> nat \<Rightarrow> 'a::field rand \<Rightarrow> ('a matrix \<times> 'a rand) option" where
  "random_nonsingular_matrix k n rs =
     (case random_mat k n rs of (G, rs1) \<Rightarrow>
        if rank G = min k n then Some (G, rs1) else random_nonsingular_matrix k n rs1)"

declare random_nonsingular_matrix.simps [code]

type_synonym 'a public_key = "'a matrix \<times> 'a matrix"

type_synonym 'a secret_key =
  "'a matrix \<times> 'a matrix \<times> 'a matrix \<times> 'a matrix \<times> 'a matrix \<times> nat list"

text \<open>The loop of \<open>key_gen\<close> that fills the rows of \<open>G0\<close> with random codewords, from
  the first row to the last.\<close>

fun random_codewords :: "nat \<Rightarrow> 'a::field matrix \<Rightarrow> 'a rand \<Rightarrow> 'a list list \<times> 'a rand" where
  "random_codewords 0 G rs = ([], rs)"
| "random_codewords (Suc m) G rs =
     (case random_code G rs of (c, rs1) \<Rightarrow>
        (case random_codewords m G rs1 of (cs, rs2) \<Rightarrow> (c # cs, rs2)))"

text \<open>
  Key generation.  The outer \<open>option\<close> is \<open>None\<close> when one of the rejection loops does
  not return; an exception of a matrix operation is \<open>Some (Inl e)\<close>.  Drawing the matrix
  \<open>L\<close> with \<open>n - k\<close> columns raises for \<open>n < k\<close>.
\<close>

definition key_gen ::
  "nat \<Rightarrow> nat \<Rightarrow> 'a::field rand \<Rightarrow>
     (error + ('a public_key \<times> 'a secret_key) \<times> 'a rand) option" where
  "key_gen n k rs =
     (case random_nonsingular_matrix k n rs of None \<Rightarrow> None | Some (G, rs1) \<Rightarrow>
      (case random_codewords n G rs1 of (G0rows, rs2) \<Rightarrow>
       (let G0 = Matrix n n G0rows;
            J = pivots G
        in (case random_nonsingular_matrix n n rs2 of None \<Rightarrow> None | Some (T, rs3) \<Rightarrow>
            (case matrix_from_columns T J of Inl e \<Rightarrow> Some (Inl e) | Inr TJ \<Rightarrow>
             (let HJ = right_kernel_matrix (transpose_mat TJ)
              in if n < k then Some (Inl DimensionMismatch)
                 else (case random_nonsingular_matrix n (n - k) rs3 of None \<Rightarrow> None
                       | Some (L, rs4) \<Rightarrow>
                  (case mat_times L HJ of Inl e \<Rightarrow> Some (Inl e) | Inr Q \<Rightarrow>
                   (case random_nonsingular_matrix n n rs4 of None \<Rightarrow> None
                    | Some (M, rs5) \<Rightarrow>
                      Some (bind_err (mat_times G M) (\<lambda>G1.
                            bind_err (mat_add G0 T) (\<lambda>G0T.
                            bind_err (mat_times Q G0T) (\<lambda>QG0T.
                            bind_err (mat_times QG0T M) (\<lambda>G2.
                            Inr (((G1, G2), (G, M, T, Q, G0, J)), rs5)))))))))))))))"

text \<open>Encryption; \<open>n\<close> is the global code length.\<close>

definition enc ::
  "nat \<Rightarrow> 'a::field public_key \<Rightarrow> 'a list \<Rightarrow> 'a rand \<Rightarrow> error + 'a list \<times> 'a rand" where
  "enc n pk u rs =
     (case pk of (G1, G2) \<Rightarrow>
      (case random_vector n rs of (e, rs1) \<Rightarrow>
         bind_err (vec_times_mat u G1) (\<lambda>uG1.
         bind_err (vec_times_mat e G2) (\<lambda>eG2.
         bind_err (vec_add uG1 eG2) (\<lambda>ct.
         Inr (ct, rs1))))))"

text \<open>
  Decryption up to the vector \<open>uG\<close> whose linear system is solved in the last step;
  \<open>n\<close> is the global code length.
\<close>

definition dec_uG :: "nat \<Rightarrow> 'a::field secret_key \<Rightarrow> 'a list \<Rightarrow> error + 'a list" where
  "dec_uG n sk ct =
     (case sk of (G, M, T, Q, G0, J) \<Rightarrow>
        bind_err (inverse_mat M) (\<lambda>Minv.
        bind_err (vec_times_mat ct Minv) (\<lambda>y.
        bind_err (matrix_from_columns G J) (\<lambda>GJ.
        bind_err (row_matrix n y) (\<lambda>ymat.
        bind_err (matrix_from_columns ymat J) (\<lambda>yJ.
        bind_err (inverse_mat GJ) (\<lambda>GJinv.
        bind_err (mat_times yJ GJinv) (\<lambda>yJGJinv.
        bind_err (mat_times yJGJinv G) (\<lambda>yJGJinvG.
        bind_err (vector_of yJGJinvG) (\<lambda>w.
        bind_err (vec_sub y w) (\<lambda>eQT.
        bind_err (inverse_mat T) (\<lambda>Tinv.
        bind_err (vec_times_mat eQT Tinv) (\<lambda>eQ.
        bind_err (vec_times_mat eQ G0) (\<lambda>eQG0.
        bind_err (vec_sub y eQG0) (\<lambda>d.
        vec_sub d eQT)))))))))))))))"

text \<open>
  The last step of decryption: the matrix \<open>Gconc\<close> of the linear system
  \<open>transpose(G) * x = uG\<close>, and the first \<open>k\<close> entries of the last column of its reduced
  row echelon form; \<open>n\<close> and \<open>k\<close> are the global code length and dimension.
\<close>

definition dec_Gconc :: "nat \<Rightarrow> 'a::field secret_key \<Rightarrow> 'a list \<Rightarrow> error + 'a matrix" where
  "dec_Gconc n sk uG =
     (case sk of (G, M, T, Q, G0, J) \<Rightarrow>
        bind_err (column_matrix n uG) (\<lambda>b. augment (transpose_mat G) b))"

definition dec :: "nat \<Rightarrow> nat \<Rightarrow> 'a::field secret_key \<Rightarrow> 'a list \<Rightarrow> error + 'a list" where
  "dec n k sk ct =
     bind_err (dec_uG n sk ct) (\<lambda>uG.
     bind_err (dec_Gconc n sk uG) (\<lambda>Gconc.
     Inr (map last (take k (rows (rref Gconc))))))"

text \<open>
  The attack.  \<open>G2red\<close> is the slice of the first \<open>n - k\<close> rows of the reduced row echelon
  form of \<open>G2\<close>; \<open>Gmult\<close> is the matrix of the linear system the attack solves.
\<close>

definition attack_G2red :: "nat \<Rightarrow> nat \<Rightarrow> 'a::field public_key \<Rightarrow> 'a matrix" where
  "attack_G2red n k pk =
     (case pk of (G1, G2) \<Rightarrow>
        (let rs = slice_upto (int n - int k) (rows (rref G2))
         in Matrix (length rs) (ncols G2) rs))"

definition attack_Gmult :: "nat \<Rightarrow> nat \<Rightarrow> 'a::field public_key \<Rightarrow> error + 'a matrix" where
  "attack_Gmult n k pk =
     (case pk of (G1, G2) \<Rightarrow>
        augment (transpose_mat G1) (transpose_mat (attack_G2red n k pk)))"

definition attack ::
  "nat \<Rightarrow> nat \<Rightarrow> 'a::field public_key \<Rightarrow> 'a list \<Rightarrow> error + 'a matrix \<times> 'a matrix" where
  "attack n k pk ct =
     bind_err (attack_Gmult n k pk) (\<lambda>Gmult.
     (let rk = rank Gmult
      in bind_err (column_matrix n ct) (\<lambda>b.
         bind_err (augment Gmult b) (\<lambda>Gaug.
         (let Gsoln = rows (rref Gaug);
              top = take k Gsoln
          in Inr (Matrix (length top) 1 (map (\<lambda>r. [last r]) top),
                  Matrix (length top) (ncols Gaug - 1 - rk)
                    (map (\<lambda>r. drop rk (butlast r)) top)))))))"

section \<open>Notions used to state the properties\<close>

text \<open>A vector is in the row space of a matrix with \<open>n\<close> columns when it is a linear
  combination of its rows.\<close>

definition in_rowspace :: "nat \<Rightarrow> 'a::field list list \<Rightarrow> 'a list \<Rightarrow> bool" where
  "in_rowspace n A v \<longleftrightarrow> (\<exists>c. length c = length A \<and> v = vecmat n c A)"

text \<open>The rows of a matrix with \<open>n\<close> columns are linearly independent when only the zero
  combination of them is zero.\<close>

definition lin_indep :: "nat \<Rightarrow> 'a::field list list \<Rightarrow> bool" where
  "lin_indep n A \<longleftrightarrow> (\<forall>c. length c = length A \<and> vecmat n c A = zerov n \<longrightarrow> c = zerov (length A))"

text \<open>The linear system \<open>transpose(G) * x = b\<close> has a solution: some vector \<open>u\<close> with one
  entry for every row of \<open>G\<close> satisfies \<open>u * G = b\<close>.\<close>

definition consistent :: "'a::field matrix \<Rightarrow> 'a list \<Rightarrow> bool" where
  "consistent G b \<longleftrightarrow> (\<exists>u. length u = nrows G \<and> vecmat (ncols G) u (rows G) = b)"

text \<open>The shape of a reduced row echelon form with \<open>n\<close> columns, column by column: a zero
  column in front of a reduced matrix, or a pivot row, with zeros in the later pivot
  columns, on top of a zero column in front of a reduced matrix.\<close>

inductive is_rref :: "nat \<Rightarrow> 'a::field list list \<Rightarrow> bool" where
  rref_empty: "list_all (\<lambda>r. r = []) E \<Longrightarrow> is_rref 0 E"
| rref_free: "is_rref n E \<Longrightarrow> is_rref (Suc n) (map ((#) 0) E)"
| rref_pivot: "is_rref n E \<Longrightarrow> length v = n \<Longrightarrow>
     list_all (\<lambda>r. case leading r of None \<Rightarrow> True | Some j \<Rightarrow> v ! j = 0) E \<Longrightarrow>
     is_rref (Suc n) ((1 # v) # map ((#) 0) E)"

section \<open>Vector algebra\<close>

lemma length_zerov [simp]: "length (zerov n) = n"
  by (simp add: zerov_def)

lemma length_vadd [simp]: "length (vadd u v) = min (length u) (length v)"
  by (simp add: vadd_def)

lemma length_vsub [simp]: "length (vsub u v) = min (length u) (length v)"
  by (simp add: vsub_def)

lemma length_smult [simp]: "length (smult a v) = length v"
  by (simp add: smult_def)

lemma zerov_0 [simp]: "zerov 0 = []"
  by (simp add: zerov_def)

lemma zerov_Suc [simp]: "zerov (Suc n) = 0 # zerov n"
  by (simp add: zerov_def)

lemma vadd_Cons [simp]: "vadd (x # u) (y # v) = (x + y) # vadd u v"
  by (simp add: vadd_def)

lemma vadd_Nil [simp]: "vadd [] v = []" "vadd u [] = []"
  by (simp_all add: vadd_def)

lemma vsub_Cons [simp]: "vsub (x # u) (y # v) = (x - y) # vsub u v"
  by (simp add: vsub_def)

lemma vsub_Nil [simp]: "vsub [] v = []" "vsub u [] = []"
  by (simp_all add: vsub_def)

lemma smult_Cons [simp]: "smult a (x # v) = (a * x) # smult a v"
  by (simp add: smult_def)

lemma smult_Nil [simp]: "smult a [] = []"
  by (simp add: smult_def)

lemma dot_Cons [simp]: "dot (x # u) (y # v) = x * y + dot u v"
  by (simp add: dot_def)

lemma dot_Nil [simp]: "dot [] v = 0" "dot u [] = 0"
  by (simp_all add: dot_def)

lemma nth_zerov [simp]: "i < n \<Longrightarrow> zerov n ! i = 0"
  by (simp add: zerov_def)

lemma nth_vadd [simp]: "i < length u \<Longrightarrow> i < length v \<Longrightarrow> vadd u v ! i = u ! i + v ! i"
  by (simp add: vadd_def)

lemma nth_vsub [simp]: "i < length u \<Longrightarrow> i < length v \<Longrightarrow> vsub u v ! i = u ! i - v ! i"
  by (simp add: vsub_def)

lemma nth_smult [simp]: "i < length v \<Longrightarrow> smult a v ! i = a * v ! i"
  by (simp add: smult_def)

lemma vadd_zerov_right [simp]: "length v = n \<Longrightarrow> vadd v (zerov n) = v"
  by (rule nth_equalityI) simp_all

lemma vadd_zerov_left [simp]: "length v = n \<Longrightarrow> vadd (zerov n) v = v"
  by (rule nth_equalityI) simp_all

lemma vsub_zerov_right [simp]: "length v = n \<Longrightarrow> vsub v (zerov n) = v"
  by (rule nth_equalityI) simp_all

lemma vsub_self [simp]: "vsub v v = zerov (length v)"
  by (rule nth_equalityI) simp_all

lemma vadd_commute: "vadd u v = vadd v u"
  by (rule nth_equalityI) (simp_all add: add.commute)

lemma vadd_assoc: "vadd (vadd u v) w = vadd u (vadd v w)"
  by (rule nth_equalityI) (simp_all add: add.assoc)

lemma smult_zero [simp]: "smult 0 v = zerov (length v)"
  by (rule nth_equalityI) simp_all

lemma smult_one [simp]: "smult 1 v = v"
  by (rule nth_equalityI) simp_all

lemma smult_zerov [simp]: "smult a (zerov n) = zerov n"
  by (rule nth_equalityI) simp_all

lemma smult_smult [simp]: "smult a (smult b v) = smult (a * b) v"
  by (rule nth_equalityI) (simp_all add: mult.assoc)

lemma smult_vadd: "smult a (vadd u v) = vadd (smult a u) (smult a v)"
  by (rule nth_equalityI) (simp_all add: distrib_left)

lemma smult_vsub: "smult a (vsub u v) = vsub (smult a u) (smult a v)"
  by (rule nth_equalityI) (simp_all add: right_diff_distrib)

lemma smult_add_left: "smult (a + b) v = vadd (smult a v) (smult b v)"
  by (rule nth_equalityI) (simp_all add: distrib_right)

lemma vsub_vadd_cancel: "length u = length v \<Longrightarrow> vadd (vsub u v) v = u"
  by (rule nth_equalityI) simp_all

lemma vadd_vsub_cancel: "length u = length v \<Longrightarrow> vsub (vadd u v) v = u"
  by (rule nth_equalityI) simp_all

lemma vsub_eq_vadd: "vsub u v = vadd u (smult (- 1) v)"
  by (rule nth_equalityI) simp_all

lemma dot_commute: "dot u v = dot v u"
proof (induction u arbitrary: v)
  case Nil
  then show ?case by simp
next
  case (Cons x u)
  then show ?case by (cases v) (simp_all add: mult.commute)
qed

lemma dot_zerov_right [simp]: "dot u (zerov n) = 0"
proof (induction u arbitrary: n)
  case Nil
  then show ?case by simp
next
  case (Cons x u)
  then show ?case by (cases n) simp_all
qed

lemma dot_zerov_left [simp]: "dot (zerov n) u = 0"
  by (simp add: dot_commute [of "zerov n"])

lemma dot_vadd_left:
  "length u = length v \<Longrightarrow> dot (vadd u v) w = dot u w + dot v w"
proof (induction u arbitrary: v w)
  case Nil
  then show ?case by simp
next
  case (Cons x u)
  then show ?case by (cases v; cases w) (simp_all add: algebra_simps)
qed

lemma dot_vsub_left:
  "length u = length v \<Longrightarrow> dot (vsub u v) w = dot u w - dot v w"
proof (induction u arbitrary: v w)
  case Nil
  then show ?case by simp
next
  case (Cons x u)
  then show ?case by (cases v; cases w) (simp_all add: algebra_simps)
qed

lemma dot_smult_left [simp]: "dot (smult a u) w = a * dot u w"
proof (induction u arbitrary: w)
  case Nil
  then show ?case by simp
next
  case (Cons x u)
  then show ?case by (cases w) (simp_all add: algebra_simps)
qed

section \<open>Vector times matrix\<close>

lemma vecmat_Nil [simp]: "vecmat n [] A = zerov n" "vecmat n c [] = zerov n"
  by (cases A; simp) (cases c; simp)

lemma length_vecmat [simp]:
  "\<forall>r\<in>set A. length r = n \<Longrightarrow> length (vecmat n c A) = n"
  by (induction n c A rule: vecmat.induct) simp_all

lemma vecmat_zerov [simp]:
  "\<forall>r\<in>set A. length r = n \<Longrightarrow> vecmat n (zerov m) A = zerov n"
proof (induction m arbitrary: A)
  case 0
  then show ?case by simp
next
  case (Suc m)
  then show ?case by (cases A) simp_all
qed

lemma vecmat_vadd:
  "\<forall>r\<in>set A. length r = n \<Longrightarrow> length c = length A \<Longrightarrow> length d = length A \<Longrightarrow>
   vecmat n (vadd c d) A = vadd (vecmat n c A) (vecmat n d A)"
proof (induction A arbitrary: c d)
  case Nil
  then show ?case by simp
next
  case (Cons r A)
  obtain a c' where c: "c = a # c'" using Cons.prems by (cases c) auto
  obtain b d' where d: "d = b # d'" using Cons.prems by (cases d) auto
  have IH: "vecmat n (vadd c' d') A = vadd (vecmat n c' A) (vecmat n d' A)"
    using Cons.IH [of c' d'] Cons.prems c d by simp
  show ?case
    unfolding c d using Cons.prems
    by (intro nth_equalityI) (simp_all add: IH algebra_simps)
qed

lemma vecmat_smult:
  "\<forall>r\<in>set A. length r = n \<Longrightarrow> vecmat n (smult a c) A = smult a (vecmat n c A)"
proof (induction n c A rule: vecmat.induct)
  case (1 n b c r A)
  then show ?case by (simp add: smult_vadd mult.commute)
qed simp_all

lemma vecmat_vsub:
  "\<forall>r\<in>set A. length r = n \<Longrightarrow> length c = length A \<Longrightarrow> length d = length A \<Longrightarrow>
   vecmat n (vsub c d) A = vsub (vecmat n c A) (vecmat n d A)"
  by (simp add: vsub_eq_vadd vecmat_vadd vecmat_smult)

lemma vecmat_assoc:
  "\<forall>r\<in>set A. length r = n \<Longrightarrow> \<forall>b\<in>set B. length b = length A \<Longrightarrow> length c = length B \<Longrightarrow>
   vecmat n (vecmat (length A) c B) A = vecmat n c (map (\<lambda>b. vecmat n b A) B)"
proof (induction B arbitrary: c)
  case Nil
  then show ?case by simp
next
  case (Cons b B)
  obtain a c' where c: "c = a # c'" using Cons.prems by (cases c) auto
  show ?case
    using Cons.prems Cons.IH [of c'] unfolding c
    by (simp add: vecmat_vadd vecmat_smult)
qed

lemma vecmat_map_Cons0 [simp]: "vecmat (Suc n) c (map ((#) 0) A) = 0 # vecmat n c A"
  by (induction n c A rule: vecmat.induct) simp_all

lemma vecmat_hd_tl:
  "\<forall>r\<in>set A. length r = Suc n \<Longrightarrow>
   vecmat (Suc n) c A = dot c (map hd A) # vecmat n c (map tl A)"
proof (induction A arbitrary: c)
  case Nil
  then show ?case by simp
next
  case (Cons r A)
  show ?case
  proof (cases c)
    case Nil
    then show ?thesis by simp
  next
    case (Cons a c')
    obtain x r' where r: "r = x # r'" using Cons.prems by (cases r) auto
    show ?thesis
      using Cons.prems Cons.IH [of c'] unfolding Cons r by simp
  qed
qed

lemma vecmat_columns:
  "\<forall>r\<in>set A. length r = n \<Longrightarrow> vecmat n c A = map (dot c) (columns n A)"
proof (induction n arbitrary: A)
  case 0
  then show ?case by (induction "0::nat" c A rule: vecmat.induct) simp_all
next
  case (Suc n)
  have "\<forall>r\<in>set (map tl A). length r = n" using Suc.prems by auto
  then show ?case using Suc.IH [of "map tl A"] Suc.prems by (simp add: vecmat_hd_tl)
qed

lemma length_identity_rows [simp]: "length (identity_rows n) = n"
  by (induction n) simp_all

lemma identity_rows_ok [simp]: "r \<in> set (identity_rows n) \<Longrightarrow> length r = n"
  by (induction n arbitrary: r) auto

lemma vecmat_identity [simp]: "length c = n \<Longrightarrow> vecmat n c (identity_rows n) = c"
proof (induction n arbitrary: c)
  case 0
  then show ?case by simp
next
  case (Suc n)
  then obtain x c' where c: "c = x # c'" by (cases c) auto
  then show ?case using Suc by simp
qed

lemma identity_times:
  "\<forall>r\<in>set A. length r = n \<Longrightarrow> map (\<lambda>e. vecmat n e A) (identity_rows (length A)) = A"
proof (induction A)
  case Nil
  then show ?case by simp
next
  case (Cons r A)
  have "map (\<lambda>e. vecmat n e (r # A)) (map ((#) 0) (identity_rows (length A)))
        = map (\<lambda>e. vecmat n e A) (identity_rows (length A))"
    using Cons.prems by (simp add: o_def)
  then show ?case using Cons by simp
qed

section \<open>Row spaces\<close>

lemma in_rowspaceI: "length c = length A \<Longrightarrow> v = vecmat n c A \<Longrightarrow> in_rowspace n A v"
  unfolding in_rowspace_def by blast

lemma in_rowspace_length:
  "\<forall>r\<in>set A. length r = n \<Longrightarrow> in_rowspace n A v \<Longrightarrow> length v = n"
  unfolding in_rowspace_def by auto

lemma in_rowspace_zero: "\<forall>r\<in>set A. length r = n \<Longrightarrow> in_rowspace n A (zerov n)"
  by (rule in_rowspaceI [of "zerov (length A)"]) simp_all

lemma in_rowspace_add:
  assumes "\<forall>r\<in>set A. length r = n" "in_rowspace n A u" "in_rowspace n A v"
  shows "in_rowspace n A (vadd u v)"
proof -
  obtain c d where c: "length c = length A" "u = vecmat n c A"
    and d: "length d = length A" "v = vecmat n d A"
    using assms unfolding in_rowspace_def by blast
  show ?thesis
    by (rule in_rowspaceI [of "vadd c d"]) (simp_all add: c d vecmat_vadd assms(1))
qed

lemma in_rowspace_smult:
  assumes "\<forall>r\<in>set A. length r = n" "in_rowspace n A v"
  shows "in_rowspace n A (smult a v)"
proof -
  obtain c where c: "length c = length A" "v = vecmat n c A"
    using assms unfolding in_rowspace_def by blast
  show ?thesis
    by (rule in_rowspaceI [of "smult a c"]) (simp_all add: c vecmat_smult assms(1))
qed

lemma in_rowspace_sub:
  assumes "\<forall>r\<in>set A. length r = n" "in_rowspace n A u" "in_rowspace n A v"
  shows "in_rowspace n A (vsub u v)"
  unfolding vsub_eq_vadd
  by (intro in_rowspace_add in_rowspace_smult assms)

lemma in_rowspace_member:
  "\<forall>r\<in>set A. length r = n \<Longrightarrow> r \<in> set A \<Longrightarrow> in_rowspace n A r"
proof (induction A)
  case Nil
  then show ?case by simp
next
  case (Cons a A)
  show ?case
  proof (cases "r = a")
    case True
    show ?thesis
      by (rule in_rowspaceI [of "1 # zerov (length A)"]) (use Cons.prems True in simp_all)
  next
    case False
    then have "in_rowspace n A r" using Cons by simp
    then obtain c where c: "length c = length A" "r = vecmat n c A"
      unfolding in_rowspace_def by blast
    have "length (vecmat n c A) = n" using Cons.prems by simp
    then show ?thesis
      by (intro in_rowspaceI [of "0 # c"]) (use Cons.prems c in simp_all)
  qed
qed

lemma in_rowspace_trans:
  assumes A: "\<forall>r\<in>set A. length r = n"
  shows "\<forall>b\<in>set B. in_rowspace n A b \<Longrightarrow> in_rowspace n B v \<Longrightarrow> in_rowspace n A v"
proof -
  have "\<forall>b\<in>set B. in_rowspace n A b \<Longrightarrow> length c = length B \<Longrightarrow>
        in_rowspace n A (vecmat n c B)" for c
  proof (induction B arbitrary: c)
    case Nil
    then show ?case by (simp add: in_rowspace_zero A)
  next
    case (Cons b B)
    obtain a c' where c: "c = a # c'" using Cons.prems by (cases c) auto
    have "in_rowspace n A (vecmat n c' B)" using Cons c by simp
    moreover have "in_rowspace n A (smult a b)"
      using Cons.prems by (simp add: in_rowspace_smult A)
    ultimately show ?case unfolding c by (simp add: in_rowspace_add A)
  qed
  then show "\<forall>b\<in>set B. in_rowspace n A b \<Longrightarrow> in_rowspace n B v \<Longrightarrow> in_rowspace n A v"
    unfolding in_rowspace_def [of n B] by blast
qed

lemma in_rowspace_mono:
  "\<forall>r\<in>set A. length r = n \<Longrightarrow> set B \<subseteq> set A \<Longrightarrow> in_rowspace n B v \<Longrightarrow> in_rowspace n A v"
  by (rule in_rowspace_trans [of A n B]) (auto intro: in_rowspace_member)

lemma in_rowspace_Cons0:
  "in_rowspace (Suc n) (map ((#) 0) A) w \<longleftrightarrow> (\<exists>v. w = 0 # v \<and> in_rowspace n A v)"
  unfolding in_rowspace_def by auto

lemma in_rowspace_tl:
  "\<forall>r\<in>set A. length r = Suc n \<Longrightarrow> in_rowspace (Suc n) A v \<Longrightarrow> in_rowspace n (map tl A) (tl v)"
  unfolding in_rowspace_def by (auto simp: vecmat_hd_tl)

lemma map_tl_map_Cons [simp]: "map tl (map ((#) x) A) = A"
  by (induction A) simp_all

lemma map_tl_comp_Cons [simp]: "map (tl \<circ> (#) x) A = A"
  by (induction A) simp_all

lemma map_Cons0_map_tl:
  "\<forall>r\<in>set A. length r = Suc n \<and> hd r = 0 \<Longrightarrow> map ((#) 0) (map tl A) = A"
proof (induction A)
  case Nil
  then show ?case by simp
next
  case (Cons r A)
  then show ?case by (cases r) simp_all
qed

section \<open>Row reduction\<close>

lemma find_pivot_None: "find_pivot A = None \<Longrightarrow> \<forall>r\<in>set A. hd r = 0"
  by (induction A) (auto split: if_splits option.splits)

lemma find_pivot_Some:
  "find_pivot A = Some (p, B) \<Longrightarrow> hd p \<noteq> 0 \<and> set A = insert p (set B) \<and> length A = Suc (length B)"
proof (induction A arbitrary: p B)
  case Nil
  then show ?case by simp
next
  case (Cons r A)
  show ?case
  proof (cases "hd r \<noteq> 0")
    case True
    then show ?thesis using Cons.prems by auto
  next
    case False
    then obtain B' where B': "find_pivot A = Some (p, B')" "B = r # B'"
      using Cons.prems by (auto split: option.splits)
    then show ?thesis using Cons.IH [of p B'] by auto
  qed
qed

lemma reduce_row_Nil [simp]: "reduce_row v [] = v"
  by (cases v) simp_all

lemma reduce_row_free [simp]:
  "reduce_row (x # v) (map ((#) 0) E) = x # reduce_row v E"
  by (cases E) simp_all

lemma reduce_row_pivot [simp]:
  "a \<noteq> 0 \<Longrightarrow> reduce_row (x # v) ((a # w) # map ((#) 0) E) = 0 # reduce_row (vsub v (smult x w)) E"
  by simp

lemma is_rref_rows_ok: "is_rref n E \<Longrightarrow> \<forall>r\<in>set E. length r = n"
  by (induction rule: is_rref.induct) (auto simp: list_all_iff)

lemma leading_Cons0 [simp]: "leading (0 # v) = map_option Suc (leading v)"
  by simp

lemma reduce_row_pivots:
  "is_rref n E \<Longrightarrow> length v = n \<Longrightarrow>
   \<forall>r\<in>set E. \<forall>j. leading r = Some j \<longrightarrow> reduce_row v E ! j = 0"
proof (induction arbitrary: v rule: is_rref.induct)
  case (rref_empty E)
  then show ?case by (auto simp: list_all_iff)
next
  case (rref_free n E)
  obtain x v' where v: "v = x # v'" "length v' = n" using rref_free.prems by (cases v) auto
  show ?case using rref_free.IH [OF v(2)] unfolding v(1) by auto
next
  case (rref_pivot n E w)
  obtain x v' where v: "v = x # v'" "length v' = n" using rref_pivot.prems by (cases v) auto
  have "length (vsub v' (smult x w)) = n" using v rref_pivot.hyps by simp
  from rref_pivot.IH [OF this] show ?case unfolding v(1) by auto
qed

lemma reduce_row_rowspace:
  "is_rref n E \<Longrightarrow> length v = n \<Longrightarrow> \<exists>z. in_rowspace n E z \<and> reduce_row v E = vsub v z"
proof (induction arbitrary: v rule: is_rref.induct)
  case (rref_empty E)
  then have "in_rowspace 0 E (zerov 0)"
    by (intro in_rowspace_zero) (auto simp: list_all_iff)
  then show ?case using rref_empty by (intro exI [of _ "zerov 0"]) simp
next
  case (rref_free n E)
  obtain x v' where v: "v = x # v'" "length v' = n" using rref_free.prems by (cases v) auto
  obtain z where z: "in_rowspace n E z" "reduce_row v' E = vsub v' z"
    using rref_free.IH [OF v(2)] by blast
  show ?case unfolding v(1)
    by (intro exI [of _ "0 # z"]) (simp add: in_rowspace_Cons0 z)
next
  case (rref_pivot n E w)
  obtain x v' where v: "v = x # v'" "length v' = n" using rref_pivot.prems by (cases v) auto
  have len: "length (vsub v' (smult x w)) = n" using v rref_pivot.hyps by simp
  obtain z where z: "in_rowspace n E z" "reduce_row (vsub v' (smult x w)) E = vsub (vsub v' (smult x w)) z"
    using rref_pivot.IH [OF len] by blast
  have zl: "length z = n" using z(1) is_rref_rows_ok [OF rref_pivot.hyps(1)]
    by (auto dest: in_rowspace_length)
  let ?E = "(1 # w) # map ((#) 0) E"
  have ok: "\<forall>r\<in>set ?E. length r = Suc n"
    using is_rref_rows_ok [OF rref_pivot.hyps(1)] rref_pivot.hyps(2) by auto
  have 1: "in_rowspace (Suc n) ?E (smult x (1 # w))"
    by (intro in_rowspace_smult in_rowspace_member ok) simp
  have 2: "in_rowspace (Suc n) ?E (0 # z)"
    by (rule in_rowspace_mono [OF ok, of "map ((#) 0) E"]) (auto simp: in_rowspace_Cons0 z)
  have 3: "in_rowspace (Suc n) ?E (vadd (smult x (1 # w)) (0 # z))"
    by (intro in_rowspace_add ok 1 2)
  have 4: "vsub (vsub v' (smult x w)) z = vsub v' (vadd (smult x w) z)"
    by (rule nth_equalityI) (use v zl rref_pivot.hyps in \<open>simp_all add: algebra_simps\<close>)
  show ?case unfolding v(1)
    by (intro exI [of _ "vadd (smult x (1 # w)) (0 # z)"] conjI 3) (simp add: z 4)
qed

lemma length_reduce_row:
  "is_rref n E \<Longrightarrow> length v = n \<Longrightarrow> length (reduce_row v E) = n"
proof -
  assume a: "is_rref n E" "length v = n"
  then obtain z where z: "in_rowspace n E z" "reduce_row v E = vsub v z"
    using reduce_row_rowspace by blast
  have "length z = n" using z(1) is_rref_rows_ok [OF a(1)] by (auto dest: in_rowspace_length)
  then show ?thesis using z a by simp
qed

lemma pivot_stepE:
  assumes "find_pivot A = Some (p, B)" and "\<forall>r\<in>set A. length r = Suc n"
  obtains q where "smult (inverse (hd p)) p = 1 # q" and "length q = n"
    and "p = smult (hd p) (1 # q)" and "set A = insert p (set B)"
    and "length A = Suc (length B)"
    and "\<forall>r\<in>set (map (\<lambda>r. vsub r (smult (hd r) (1 # q))) B). length r = Suc n \<and> hd r = 0"
proof -
  from find_pivot_Some [OF assms(1)]
  have hp: "hd p \<noteq> 0" and sA: "set A = insert p (set B)" and lA: "length A = Suc (length B)"
    by auto
  have lp: "length p = Suc n" using assms(2) sA by auto
  then obtain x p' where p: "p = x # p'" "length p' = n" by (cases p) auto
  have x: "x \<noteq> 0" using hp p by simp
  define q where "q = smult (inverse x) p'"
  have 1: "smult (inverse (hd p)) p = 1 # q" using x by (simp add: p q_def)
  have 2: "length q = n" by (simp add: q_def p)
  have 3: "p = smult (hd p) (1 # q)" using x by (simp add: p q_def)
  have 4: "\<forall>r\<in>set (map (\<lambda>r. vsub r (smult (hd r) (1 # q))) B). length r = Suc n \<and> hd r = 0"
  proof
    fix b assume "b \<in> set (map (\<lambda>r. vsub r (smult (hd r) (1 # q))) B)"
    then obtain r where r: "r \<in> set B" "b = vsub r (smult (hd r) (1 # q))" by auto
    then have "length r = Suc n" using assms(2) sA by auto
    then obtain y r' where "r = y # r'" "length r' = n" by (cases r) auto
    then show "length b = Suc n \<and> hd b = 0" using r 2 by simp
  qed
  show thesis using that [OF 1 2 3 sA lA 4] .
qed

lemma rref_rows_None:
  "find_pivot A = None \<Longrightarrow> rref_rows (Suc n) A = map ((#) 0) (rref_rows n (map tl A))"
  by simp

lemma rref_rows_Some:
  "find_pivot A = Some (p, B) \<Longrightarrow> smult (inverse (hd p)) p = 1 # q \<Longrightarrow>
   rref_rows (Suc n) A =
     (1 # reduce_row q (rref_rows n (map tl (map (\<lambda>r. vsub r (smult (hd r) (1 # q))) B))))
     # map ((#) 0) (rref_rows n (map tl (map (\<lambda>r. vsub r (smult (hd r) (1 # q))) B)))"
  by (simp only: rref_rows.simps option.case prod.case Let_def list.sel)

lemma length_rref_rows [simp]: "length (rref_rows n A) = length A"
proof (induction n arbitrary: A)
  case 0
  then show ?case by simp
next
  case (Suc n)
  show ?case
  proof (cases "find_pivot A")
    case None
    then show ?thesis using Suc by simp
  next
    case (Some pB)
    then obtain p B where pB: "find_pivot A = Some (p, B)" by (cases pB) auto
    then show ?thesis using Suc find_pivot_Some [OF pB] by (simp add: Let_def)
  qed
qed

lemma is_rref_rref_rows:
  "\<forall>r\<in>set A. length r = n \<Longrightarrow> is_rref n (rref_rows n A)"
proof (induction n arbitrary: A)
  case 0
  then show ?case by (auto intro: rref_empty simp: list_all_iff)
next
  case (Suc n)
  show ?case
  proof (cases "find_pivot A")
    case None
    have "\<forall>r\<in>set (map tl A). length r = n" using Suc.prems by auto
    then show ?thesis using Suc.IH None by (simp add: rref_free)
  next
    case (Some pB)
    then obtain p B where pB: "find_pivot A = Some (p, B)" by (cases pB) auto
    from pivot_stepE [OF pB Suc.prems] obtain q where
      q: "smult (inverse (hd p)) p = 1 # q" "length q = n"
      and B1: "\<forall>r\<in>set (map (\<lambda>r. vsub r (smult (hd r) (1 # q))) B). length r = Suc n \<and> hd r = 0"
      by blast
    define B1 where "B1 = map (\<lambda>r. vsub r (smult (hd r) (1 # q))) B"
    define E where "E = rref_rows n (map tl B1)"
    have "\<forall>r\<in>set (map tl B1). length r = n" using B1 unfolding B1_def by auto
    then have E: "is_rref n E" unfolding E_def by (rule Suc.IH)
    have piv: "list_all (\<lambda>r. case leading r of None \<Rightarrow> True | Some j \<Rightarrow> reduce_row q E ! j = 0) E"
      using reduce_row_pivots [OF E q(2)] by (auto simp: list_all_iff split: option.splits)
    have "is_rref (Suc n) ((1 # reduce_row q E) # map ((#) 0) E)"
      by (rule rref_pivot [OF E length_reduce_row [OF E q(2)] piv])
    then show ?thesis
      unfolding rref_rows_Some [OF pB q(1)] E_def B1_def .
  qed
qed

lemma rref_rows_ok:
  "\<forall>r\<in>set A. length r = n \<Longrightarrow> \<forall>r\<in>set (rref_rows n A). length r = n"
  by (rule is_rref_rows_ok [OF is_rref_rref_rows])

lemma rref_rows_in_rowspace:
  "\<forall>r\<in>set A. length r = n \<Longrightarrow> r \<in> set (rref_rows n A) \<Longrightarrow> in_rowspace n A r"
proof (induction n arbitrary: A r)
  case 0
  then show ?case by (simp add: in_rowspace_member)
next
  case (Suc n)
  show ?case
  proof (cases "find_pivot A")
    case None
    have ok: "\<forall>r\<in>set (map tl A). length r = n" using Suc.prems by auto
    have A: "map ((#) 0) (map tl A) = A"
      using find_pivot_None [OF None] Suc.prems(1) by (intro map_Cons0_map_tl) auto
    obtain e where e: "r = 0 # e" "e \<in> set (rref_rows n (map tl A))"
      using Suc.prems(2) None by auto
    have "in_rowspace n (map tl A) e" using Suc.IH [OF ok e(2)] .
    then have "in_rowspace (Suc n) (map ((#) 0) (map tl A)) r"
      unfolding in_rowspace_Cons0 e(1) by blast
    then show ?thesis unfolding A .
  next
    case (Some pB)
    then obtain p B where pB: "find_pivot A = Some (p, B)" by (cases pB) auto
    from pivot_stepE [OF pB Suc.prems(1)] obtain q where
      q: "smult (inverse (hd p)) p = 1 # q" "length q = n"
      and sA: "set A = insert p (set B)"
      and B1: "\<forall>r\<in>set (map (\<lambda>r. vsub r (smult (hd r) (1 # q))) B). length r = Suc n \<and> hd r = 0"
      by blast
    define B1 where "B1 = map (\<lambda>r. vsub r (smult (hd r) (1 # q))) B"
    define E where "E = rref_rows n (map tl B1)"
    note okA = Suc.prems(1)
    have okB1: "\<forall>r\<in>set (map tl B1). length r = n" using B1 unfolding B1_def by auto
    have E: "is_rref n E" unfolding E_def by (rule is_rref_rref_rows [OF okB1])
    have B1eq: "map ((#) 0) (map tl B1) = B1"
      using B1 unfolding B1_def by (intro map_Cons0_map_tl) blast
    have p1: "in_rowspace (Suc n) A (1 # q)"
      unfolding q(1) [symmetric]
      by (intro in_rowspace_smult in_rowspace_member okA) (simp add: sA)
    have B1A: "\<forall>b\<in>set B1. in_rowspace (Suc n) A b"
    proof
      fix b assume "b \<in> set B1"
      then obtain r where r: "r \<in> set B" "b = vsub r (smult (hd r) (1 # q))"
        unfolding B1_def by auto
      show "in_rowspace (Suc n) A b" unfolding r(2)
        by (intro in_rowspace_sub in_rowspace_smult in_rowspace_member okA p1)
           (use r(1) sA in simp)
    qed
    have EA: "in_rowspace (Suc n) A (0 # e)" if "in_rowspace n E e" for e
    proof -
      have "\<forall>b\<in>set E. in_rowspace n (map tl B1) b"
        unfolding E_def using Suc.IH [OF okB1] by blast
      then have "in_rowspace n (map tl B1) e"
        using in_rowspace_trans [OF okB1 _ that] by blast
      then have "in_rowspace (Suc n) B1 (0 # e)"
        using in_rowspace_Cons0 [of n "map tl B1" "0 # e"] unfolding B1eq by simp
      then show ?thesis using in_rowspace_trans [OF okA B1A] by blast
    qed
    have res: "rref_rows (Suc n) A = (1 # reduce_row q E) # map ((#) 0) E"
      unfolding rref_rows_Some [OF pB q(1)] E_def B1_def ..
    from Suc.prems(2) consider "r = 1 # reduce_row q E" | e where "r = 0 # e" "e \<in> set E"
      unfolding res by auto
    then show ?thesis
    proof cases
      case 1
      obtain z where z: "in_rowspace n E z" "reduce_row q E = vsub q z"
        using reduce_row_rowspace [OF E q(2)] by blast
      have "r = vsub (1 # q) (0 # z)" using 1 z by simp
      moreover have "in_rowspace (Suc n) A (vsub (1 # q) (0 # z))"
        by (intro in_rowspace_sub okA p1 EA z)
      ultimately show ?thesis by simp
    next
      case 2
      have "in_rowspace n E e"
        by (rule in_rowspace_member [OF is_rref_rows_ok [OF E] 2(2)])
      then show ?thesis unfolding 2(1) by (rule EA)
    qed
  qed
qed

lemma rows_in_rowspace_rref:
  "\<forall>r\<in>set A. length r = n \<Longrightarrow> r \<in> set A \<Longrightarrow> in_rowspace n (rref_rows n A) r"
proof (induction n arbitrary: A r)
  case 0
  then show ?case by (simp add: in_rowspace_member)
next
  case (Suc n)
  show ?case
  proof (cases "find_pivot A")
    case None
    have ok: "\<forall>r\<in>set (map tl A). length r = n" using Suc.prems by auto
    have "length r = Suc n \<and> hd r = 0" using find_pivot_None [OF None] Suc.prems by auto
    then obtain e where e: "r = 0 # e" by (cases r) auto
    have "e \<in> set (map tl A)" using Suc.prems(2) e by force
    from Suc.IH [OF ok this] show ?thesis
      unfolding rref_rows_None [OF None] in_rowspace_Cons0 e by blast
  next
    case (Some pB)
    then obtain p B where pB: "find_pivot A = Some (p, B)" by (cases pB) auto
    from pivot_stepE [OF pB Suc.prems(1)] obtain q where
      q: "smult (inverse (hd p)) p = 1 # q" "length q = n"
      and pq: "p = smult (hd p) (1 # q)"
      and sA: "set A = insert p (set B)"
      and B1: "\<forall>r\<in>set (map (\<lambda>r. vsub r (smult (hd r) (1 # q))) B). length r = Suc n \<and> hd r = 0"
      by blast
    define B1 where "B1 = map (\<lambda>r. vsub r (smult (hd r) (1 # q))) B"
    define E where "E = rref_rows n (map tl B1)"
    define F where "F = (1 # reduce_row q E) # map ((#) 0) E"
    have okB1: "\<forall>r\<in>set (map tl B1). length r = n" using B1 unfolding B1_def by auto
    have E: "is_rref n E" unfolding E_def by (rule is_rref_rref_rows [OF okB1])
    have res: "rref_rows (Suc n) A = F"
      unfolding rref_rows_Some [OF pB q(1)] F_def E_def B1_def ..
    have okF: "\<forall>r\<in>set F. length r = Suc n"
      using rref_rows_ok [OF Suc.prems(1)] unfolding res .
    have EF: "in_rowspace (Suc n) F (0 # e)" if "in_rowspace n E e" for e
    proof -
      have "in_rowspace (Suc n) (map ((#) 0) E) (0 # e)"
        unfolding in_rowspace_Cons0 using that by blast
      then show ?thesis
        by (rule in_rowspace_mono [OF okF, rotated]) (auto simp: F_def)
    qed
    have B1F: "in_rowspace (Suc n) F b" if "b \<in> set B1" for b
    proof -
      have "length b = Suc n \<and> hd b = 0" using B1 that unfolding B1_def by blast
      then obtain e where e: "b = 0 # e" by (cases b) auto
      have "e \<in> set (map tl B1)" using that e by force
      from Suc.IH [OF okB1 this] have "in_rowspace n E e" unfolding E_def .
      then show ?thesis unfolding e by (rule EF)
    qed
    have p1: "in_rowspace (Suc n) F (1 # q)"
    proof -
      obtain z where z: "in_rowspace n E z" "reduce_row q E = vsub q z"
        using reduce_row_rowspace [OF E q(2)] by blast
      have zl: "length z = n"
        using in_rowspace_length [OF is_rref_rows_ok [OF E] z(1)] .
      have "1 # q = vadd (1 # reduce_row q E) (0 # z)"
        using zl q(2) by (simp add: z(2) vsub_vadd_cancel)
      moreover have "in_rowspace (Suc n) F (vadd (1 # reduce_row q E) (0 # z))"
        by (intro in_rowspace_add okF EF z in_rowspace_member) (simp add: F_def)
      ultimately show ?thesis by simp
    qed
    from Suc.prems(2) sA consider "r = p" | "r \<in> set B" by auto
    then have "in_rowspace (Suc n) F r"
    proof cases
      case 1
      have "in_rowspace (Suc n) F (smult (hd p) (1 # q))"
        by (intro in_rowspace_smult okF p1)
      then show ?thesis using 1 pq by simp
    next
      case 2
      have lr: "length r = Suc n" using Suc.prems by blast
      have "vsub r (smult (hd r) (1 # q)) \<in> set B1" using 2 unfolding B1_def by simp
      then have "in_rowspace (Suc n) F (vsub r (smult (hd r) (1 # q)))" by (rule B1F)
      then have "in_rowspace (Suc n) F (vadd (vsub r (smult (hd r) (1 # q))) (smult (hd r) (1 # q)))"
        by (intro in_rowspace_add in_rowspace_smult okF p1)
      moreover have "vadd (vsub r (smult (hd r) (1 # q))) (smult (hd r) (1 # q)) = r"
        by (rule vsub_vadd_cancel) (simp add: lr q(2))
      ultimately show ?thesis by simp
    qed
    then show ?thesis unfolding res .
  qed
qed

section \<open>The shape of a reduced row echelon form\<close>

lemma pivot_cols_Nil [simp]: "pivot_cols [] = []"
  by (simp add: pivot_cols_def map_filter_simps)

lemma pivot_cols_Cons:
  "pivot_cols (r # E) = (case leading r of None \<Rightarrow> pivot_cols E | Some j \<Rightarrow> j # pivot_cols E)"
  unfolding pivot_cols_def by (simp add: map_filter_simps)

lemma pivot_cols_free [simp]: "pivot_cols (map ((#) 0) E) = map Suc (pivot_cols E)"
  by (induction E) (auto simp: pivot_cols_Cons split: option.splits)

lemma pivot_cols_pivot [simp]:
  "a \<noteq> 0 \<Longrightarrow> pivot_cols ((a # v) # E) = 0 # pivot_cols E"
  by (simp add: pivot_cols_Cons)

lemma pivot_cols_empty: "\<forall>r\<in>set E. r = [] \<Longrightarrow> pivot_cols E = []"
  by (induction E) (auto simp: pivot_cols_Cons)

lemma set_pivot_cols: "set (pivot_cols E) = {j. \<exists>r\<in>set E. leading r = Some j}"
  by (induction E) (auto simp: pivot_cols_Cons split: option.splits)

lemma leading_None_iff: "leading r = None \<longleftrightarrow> r = zerov (length r)"
  by (induction r) auto

lemma leading_less: "leading r = Some j \<Longrightarrow> j < length r"
  by (induction r arbitrary: j) (auto split: if_splits)

lemma length_pivot_cols_filter:
  "\<forall>r\<in>set E. length r = n \<Longrightarrow> length (filter (\<lambda>r. r \<noteq> zerov n) E) = length (pivot_cols E)"
proof (induction E)
  case Nil
  then show ?case by simp
next
  case (Cons r E)
  have "leading r = None \<longleftrightarrow> r = zerov n" using Cons.prems leading_None_iff [of r] by simp
  then show ?case using Cons by (auto simp: pivot_cols_Cons split: option.splits)
qed

lemma length_pivot_cols_le: "length (pivot_cols E) \<le> length E"
  by (induction E) (auto simp: pivot_cols_Cons split: option.splits)

lemma is_rref_pivots_le: "is_rref n E \<Longrightarrow> length (pivot_cols E) \<le> n"
  by (induction rule: is_rref.induct) (auto simp: pivot_cols_empty list_all_iff)

lemma pivot_cols_less: "\<forall>r\<in>set E. length r = n \<Longrightarrow> j \<in> set (pivot_cols E) \<Longrightarrow> j < n"
  unfolding set_pivot_cols by (auto dest: leading_less)

lemma is_rref_pivots_distinct: "is_rref n E \<Longrightarrow> distinct (pivot_cols E)"
  by (induction rule: is_rref.induct) (auto simp: pivot_cols_empty list_all_iff distinct_map)

lemma select_Nil [simp]: "select [] r = []"
  by (simp add: select_def)

lemma length_select [simp]: "length (select J r) = length J"
  by (simp add: select_def)

lemma select_map_Suc [simp]: "select (map Suc J) (x # r) = select J r"
  by (simp add: select_def)

lemma select_0_Cons [simp]: "select (0 # J) (x # r) = x # select J (x # r)"
  by (simp add: select_def)

lemma select_zero:
  "\<forall>j\<in>set J. v ! j = 0 \<Longrightarrow> select J v = zerov (length J)"
  by (induction J) (simp_all add: select_def)

lemma map_select_free:
  "map (select (map Suc J)) (map ((#) x) E) = map (select J) E"
  by (induction E) simp_all

lemma map_select_pivot:
  "map (select (0 # map Suc J)) (map ((#) x) E) = map ((#) x) (map (select J) E)"
  by (induction E) simp_all

lemma map_take_Cons: "map (take (Suc n)) (map ((#) x) E) = map ((#) x) (map (take n) E)"
  by (induction E) simp_all

lemma nth_vecmat:
  "\<forall>r\<in>set A. length r = n \<Longrightarrow> j < n \<Longrightarrow> vecmat n c A ! j = dot c (map (\<lambda>r. r ! j) A)"
  by (induction n c A rule: vecmat.induct) simp_all

lemma select_vecmat:
  assumes "\<forall>r\<in>set A. length r = n" "\<forall>j\<in>set J. j < n"
  shows "select J (vecmat n c A) = vecmat (length J) c (map (select J) A)"
proof (rule nth_equalityI)
  show "length (select J (vecmat n c A)) = length (vecmat (length J) c (map (select J) A))"
    by simp
next
  fix i assume "i < length (select J (vecmat n c A))"
  then have i: "i < length J" by simp
  then have "J ! i < n" using assms(2) by simp
  then have "select J (vecmat n c A) ! i = dot c (map (\<lambda>r. r ! (J ! i)) A)"
    using i assms(1) by (simp add: select_def nth_vecmat)
  moreover have "vecmat (length J) c (map (select J) A) ! i = dot c (map (\<lambda>r. select J r ! i) A)"
    using i by (simp add: nth_vecmat o_def)
  moreover have "map (\<lambda>r. select J r ! i) A = map (\<lambda>r. r ! (J ! i)) A"
    using i by (simp add: select_def)
  ultimately show "select J (vecmat n c A) ! i = vecmat (length J) c (map (select J) A) ! i"
    by simp
qed

lemma is_rref_select_pivots:
  "is_rref n E \<Longrightarrow>
   map (select (pivot_cols E)) (take (length (pivot_cols E)) E) = identity_rows (length (pivot_cols E))
   \<and> drop (length (pivot_cols E)) E = replicate (length E - length (pivot_cols E)) (zerov n)"
proof (induction rule: is_rref.induct)
  case (rref_empty E)
  then have "\<forall>r\<in>set E. r = []" by (simp add: list_all_iff)
  then have "pivot_cols E = []" "E = replicate (length E) []"
    by (auto simp: pivot_cols_empty intro: replicate_eqI)
  then show ?case by simp
next
  case (rref_free n E)
  let ?J = "pivot_cols E"
  have "map (select (map Suc ?J)) (take (length ?J) (map ((#) 0) E))
        = map (select ?J) (take (length ?J) E)"
    unfolding take_map by (rule map_select_free)
  moreover have "drop (length ?J) (map ((#) 0) E)
        = replicate (length E - length ?J) (zerov (Suc n))"
    using rref_free.IH unfolding drop_map by simp
  ultimately show ?case using rref_free.IH by simp
next
  case (rref_pivot n E v)
  let ?J = "pivot_cols E"
  have "\<forall>j\<in>set ?J. v ! j = 0"
    using rref_pivot.hyps(3) unfolding set_pivot_cols list_all_iff by auto
  then have v: "select ?J v = zerov (length ?J)" by (rule select_zero)
  have "map (select (0 # map Suc ?J)) (take (length ?J) (map ((#) 0) E))
        = map ((#) 0) (identity_rows (length ?J))"
    unfolding take_map map_select_pivot using rref_pivot.IH by simp
  moreover have "drop (length ?J) (map ((#) 0) E)
        = replicate (length E - length ?J) (zerov (Suc n))"
    using rref_pivot.IH unfolding drop_map by simp
  ultimately show ?case using v by simp
qed

lemma is_rref_full_pivots:
  assumes "is_rref n E" "length (pivot_cols E) = n"
  shows "take n E = identity_rows n"
  using assms
proof (induction rule: is_rref.induct)
  case (rref_empty E)
  then show ?case by simp
next
  case (rref_free n E)
  then show ?case using is_rref_pivots_le [of n E] by simp
next
  case (rref_pivot n E v)
  have len: "length (pivot_cols E) = n" using rref_pivot.prems by simp
  have "distinct (pivot_cols E)" "set (pivot_cols E) \<subseteq> {..<n}"
    using is_rref_pivots_distinct [OF rref_pivot.hyps(1)]
      pivot_cols_less [OF is_rref_rows_ok [OF rref_pivot.hyps(1)]] by auto
  then have "set (pivot_cols E) = {..<n}"
    using len by (metis card_lessThan card_subset_eq distinct_card finite_lessThan)
  then have "\<forall>j<n. \<exists>r\<in>set E. leading r = Some j"
    unfolding set_pivot_cols by blast
  then have "\<forall>j<n. v ! j = 0"
    using rref_pivot.hyps(3) unfolding list_all_iff by force
  then have "v = zerov n"
    using rref_pivot.hyps(2) by (intro nth_equalityI) simp_all
  then show ?case using rref_pivot.IH [OF len] by (simp add: take_map)
qed

lemma leading_take: "leading (take n r) = Some j \<Longrightarrow> leading r = Some j \<and> j < n"
proof (induction r arbitrary: n j)
  case Nil
  then show ?case by simp
next
  case (Cons x r)
  then show ?case by (cases n) (auto split: if_splits)
qed

lemma is_rref_take:
  "is_rref (n + d) E \<Longrightarrow> is_rref n (map (take n) E)"
proof (induction n arbitrary: E)
  case 0
  then show ?case by (auto intro: rref_empty simp: list_all_iff)
next
  case (Suc n)
  from Suc.prems have "is_rref (Suc (n + d)) E" by simp
  then show ?case
  proof (cases rule: is_rref.cases)
    case (rref_free E')
    then have "is_rref (Suc n) (map ((#) 0) (map (take n) E'))"
      using Suc.IH [of E'] by (intro is_rref.rref_free) simp
    then show ?thesis unfolding rref_free(1) map_take_Cons .
  next
    case (rref_pivot E' v)
    have 1: "is_rref n (map (take n) E')" using Suc.IH rref_pivot by simp
    have 2: "length (take n v) = n" using rref_pivot by simp
    have 3: "list_all (\<lambda>r. case leading r of None \<Rightarrow> True | Some j \<Rightarrow> take n v ! j = 0)
               (map (take n) E')"
      using rref_pivot(4) unfolding list_all_iff
      by (auto split: option.splits dest!: leading_take)
    have "map (take (Suc n)) E = (1 # take n v) # map ((#) 0) (map (take n) E')"
      unfolding rref_pivot(1) by (simp only: list.map map_take_Cons take_Suc_Cons)
    then show ?thesis
      using is_rref.rref_pivot [OF 1 2 3] by simp
  qed
qed

section \<open>The kernel of a reduced row echelon form\<close>

lemma kernel_rows_free [simp]:
  "kernel_rows (Suc n) (map ((#) 0) E) = (1 # zerov n) # map ((#) 0) (kernel_rows n E)"
  by (cases E) simp_all

lemma kernel_rows_pivot [simp]:
  "a \<noteq> 0 \<Longrightarrow> kernel_rows (Suc n) ((a # v) # map ((#) 0) E)
     = map (\<lambda>y. (- dot v y) # y) (kernel_rows n E)"
  by simp

lemma length_kernel_rows:
  "is_rref n E \<Longrightarrow> length (kernel_rows n E) = n - length (pivot_cols E)"
proof (induction rule: is_rref.induct)
  case (rref_empty E)
  then show ?case by simp
next
  case (rref_free n E)
  then show ?case using is_rref_pivots_le [of n E] by simp
next
  case (rref_pivot n E v)
  then show ?case by simp
qed

lemma kernel_rows_ok:
  "is_rref n E \<Longrightarrow> \<forall>y\<in>set (kernel_rows n E). length y = n"
  by (induction rule: is_rref.induct) auto

lemma kernel_rows_nonzero:
  "is_rref n E \<Longrightarrow> \<forall>y\<in>set (kernel_rows n E). y \<noteq> zerov n"
  by (induction rule: is_rref.induct) auto

lemma kernel_rows_dot:
  "is_rref n E \<Longrightarrow> \<forall>y\<in>set (kernel_rows n E). \<forall>r\<in>set E. dot r y = 0"
  by (induction rule: is_rref.induct) auto

lemma kernel_rows_indep:
  "is_rref n E \<Longrightarrow> lin_indep n (kernel_rows n E)"
proof (induction rule: is_rref.induct)
  case (rref_empty E)
  then show ?case by (simp add: lin_indep_def)
next
  case (rref_free n E)
  let ?K = "kernel_rows n E"
  have ok: "\<forall>y\<in>set ?K. length y = n" by (rule kernel_rows_ok [OF rref_free.hyps])
  show ?case unfolding lin_indep_def
  proof (intro allI impI)
    fix c :: "'a list"
    assume a: "length c = length (kernel_rows (Suc n) (map ((#) 0) E)) \<and>
      vecmat (Suc n) c (kernel_rows (Suc n) (map ((#) 0) E)) = zerov (Suc n)"
    then obtain x c' where c: "c = x # c'" "length c' = length ?K" by (cases c) auto
    have "length (vecmat n c' ?K) = n" using ok by simp
    then have "x = 0" "vecmat n c' ?K = zerov n" using a unfolding c(1) by simp_all
    then have "c' = zerov (length ?K)" using rref_free.IH c(2) unfolding lin_indep_def by blast
    then show "c = zerov (length (kernel_rows (Suc n) (map ((#) 0) E)))"
      using \<open>x = 0\<close> c by simp
  qed
next
  case (rref_pivot n E v)
  let ?K = "kernel_rows n E"
  let ?K' = "map (\<lambda>y. (- dot v y) # y) ?K"
  have ok: "\<forall>y\<in>set ?K'. length y = Suc n" using kernel_rows_ok [OF rref_pivot.hyps(1)] by auto
  have tl: "map tl ?K' = ?K" by (simp add: o_def)
  show ?case unfolding lin_indep_def
  proof (intro allI impI)
    fix c :: "'a list"
    assume a: "length c = length (kernel_rows (Suc n) ((1 # v) # map ((#) 0) E)) \<and>
      vecmat (Suc n) c (kernel_rows (Suc n) ((1 # v) # map ((#) 0) E)) = zerov (Suc n)"
    then have "length c = length ?K" "vecmat (Suc n) c ?K' = zerov (Suc n)" by simp_all
    then have "vecmat n c ?K = zerov n"
      using vecmat_hd_tl [OF ok, of c] unfolding tl by simp
    then have "c = zerov (length ?K)"
      using rref_pivot.IH \<open>length c = length ?K\<close> unfolding lin_indep_def by blast
    then show "c = zerov (length (kernel_rows (Suc n) ((1 # v) # map ((#) 0) E)))" by simp
  qed
qed

lemma dot_vecmat:
  "\<forall>r\<in>set A. length r = n \<Longrightarrow> dot (vecmat n c A) y = dot c (map (\<lambda>r. dot r y) A)"
proof (induction n c A rule: vecmat.induct)
  case (1 n a c r A)
  then show ?case by (simp add: dot_vadd_left)
qed simp_all

lemma dot_rowspace:
  assumes "\<forall>r\<in>set A. length r = n" "\<forall>r\<in>set A. dot r y = 0" "in_rowspace n A v"
  shows "dot v y = 0"
proof -
  obtain c where c: "v = vecmat n c A" using assms(3) unfolding in_rowspace_def by blast
  have "map (\<lambda>r. dot r y) A = zerov (length A)"
    using assms(2) by (intro nth_equalityI) simp_all
  then show ?thesis unfolding c dot_vecmat [OF assms(1)] by simp
qed

lemma length_columns [simp]: "length (columns n A) = n"
  by (induction n arbitrary: A) simp_all

lemma columns_ok: "t \<in> set (columns n A) \<Longrightarrow> length t = length A"
  by (induction n arbitrary: A) auto

text \<open>More vectors than their length: a nontrivial combination of them is zero.\<close>

lemma exists_kernel_vector:
  assumes "\<forall>c\<in>set C. length c = w" and "w < length C"
  shows "\<exists>x. length x = length C \<and> x \<noteq> zerov (length C) \<and> vecmat w x C = zerov w"
proof -
  define m where "m = length C"
  define T where "T = columns w C"
  define E where "E = rref_rows m T"
  have okT: "\<forall>t\<in>set T. length t = m" unfolding T_def m_def by (auto dest: columns_ok)
  have E: "is_rref m E" unfolding E_def by (rule is_rref_rref_rows [OF okT])
  have "length (pivot_cols E) \<le> length E" by (rule length_pivot_cols_le)
  also have "length E = w" unfolding E_def T_def by simp
  finally have "length (pivot_cols E) < m" using assms(2) unfolding m_def by simp
  then have "0 < length (kernel_rows m E)"
    using length_kernel_rows [OF E] by simp
  then obtain y where y: "y \<in> set (kernel_rows m E)" by (cases "kernel_rows m E") auto
  have ly: "length y = m" and ny: "y \<noteq> zerov m" and dy: "\<forall>r\<in>set E. dot r y = 0"
    using y kernel_rows_ok [OF E] kernel_rows_nonzero [OF E] kernel_rows_dot [OF E] by auto
  have "dot t y = 0" if "t \<in> set T" for t
    using dot_rowspace [OF is_rref_rows_ok [OF E] dy]
      rows_in_rowspace_rref [OF okT that] unfolding E_def by blast
  then have "map (dot y) T = zerov w"
    unfolding T_def by (intro nth_equalityI) (simp_all add: dot_commute [of y])
  then have "vecmat w y C = zerov w"
    unfolding vecmat_columns [OF assms(1)] T_def .
  then show ?thesis using ly ny unfolding m_def by blast
qed

text \<open>The nonzero rows of a reduced row echelon form are linearly independent.\<close>

lemma rref_nonzero_rows_indep:
  assumes "is_rref n E"
  shows "lin_indep n (take (length (pivot_cols E)) E)"
  unfolding lin_indep_def
proof (intro allI impI)
  let ?J = "pivot_cols E"
  let ?p = "length ?J"
  fix x :: "'a list"
  assume a: "length x = length (take ?p E) \<and> vecmat n x (take ?p E) = zerov n"
  have lx: "length x = ?p" using a length_pivot_cols_le [of E] by simp
  have ok: "\<forall>r\<in>set (take ?p E). length r = n"
    using is_rref_rows_ok [OF assms] by (auto dest: in_set_takeD)
  have J: "\<forall>j\<in>set ?J. j < n"
    using pivot_cols_less [OF is_rref_rows_ok [OF assms]] by blast
  have "select ?J (vecmat n x (take ?p E)) = vecmat ?p x (map (select ?J) (take ?p E))"
    by (rule select_vecmat [OF ok J])
  also have "\<dots> = x" using is_rref_select_pivots [OF assms] lx by simp
  finally have "x = select ?J (zerov n)" using a by simp
  also have "\<dots> = zerov ?p" using J by (intro select_zero) simp
  finally show "x = zerov (length (take ?p E))" using lx a by simp
qed

text \<open>A reduced row echelon form whose rows are combinations of \<open>w\<close> vectors has at most
  \<open>w\<close> pivots.\<close>

lemma pivots_le_generators:
  assumes E: "is_rref n E" and W: "\<forall>r\<in>set W. length r = n"
    and EW: "\<forall>r\<in>set E. in_rowspace n W r"
  shows "length (pivot_cols E) \<le> length W"
proof (rule ccontr)
  let ?p = "length (pivot_cols E)"
  let ?Z = "take ?p E"
  assume "\<not> ?p \<le> length W"
  then have less: "length W < ?p" by simp
  define f where "f e = (SOME c. length c = length W \<and> e = vecmat n c W)" for e
  have f: "length (f e) = length W \<and> e = vecmat n (f e) W" if "e \<in> set ?Z" for e
  proof -
    have "e \<in> set E" using that by (rule in_set_takeD)
    then have "\<exists>c. length c = length W \<and> e = vecmat n c W"
      using EW unfolding in_rowspace_def by blast
    then show ?thesis unfolding f_def by (rule someI_ex)
  qed
  define C where "C = map f ?Z"
  have lC: "length C = ?p" unfolding C_def using length_pivot_cols_le [of E] by simp
  have okC: "\<forall>c\<in>set C. length c = length W" unfolding C_def using f by auto
  have CZ: "map (\<lambda>c. vecmat n c W) C = ?Z"
    unfolding C_def map_map o_def using f by (intro map_idI) simp
  obtain x where x: "length x = length C" "x \<noteq> zerov (length C)"
    "vecmat (length W) x C = zerov (length W)"
    using exists_kernel_vector [OF okC] less lC by auto
  have "vecmat n x ?Z = vecmat n (vecmat (length W) x C) W"
    unfolding CZ [symmetric] by (rule vecmat_assoc [OF W okC x(1), symmetric])
  also have "\<dots> = zerov n" unfolding x(3) by (rule vecmat_zerov [OF W])
  finally have "x = zerov (length ?Z)"
    using rref_nonzero_rows_indep [OF E] x(1) lC length_pivot_cols_le [of E]
    unfolding lin_indep_def by simp
  then show False using x(2) lC length_pivot_cols_le [of E] by simp
qed

lemma rref_nonzero_rows_span:
  assumes "is_rref n E" "r \<in> set E"
  shows "in_rowspace n (take (length (pivot_cols E)) E) r"
proof -
  let ?p = "length (pivot_cols E)"
  have ok: "\<forall>r\<in>set (take ?p E). length r = n"
    using is_rref_rows_ok [OF assms(1)] by (auto dest: in_set_takeD)
  have "E = take ?p E @ drop ?p E" by simp
  then have "r \<in> set (take ?p E) \<or> r \<in> set (drop ?p E)"
    using assms(2) by (metis Un_iff set_append)
  then show ?thesis
  proof
    assume "r \<in> set (take ?p E)"
    then show ?thesis by (rule in_rowspace_member [OF ok])
  next
    assume "r \<in> set (drop ?p E)"
    then have "r = zerov n" using is_rref_select_pivots [OF assms(1)] by auto
    then show ?thesis using in_rowspace_zero [OF ok] by simp
  qed
qed

text \<open>Rank and row spaces: if every row of \<open>A\<close> is a combination of the rows of \<open>W\<close>, the
  rank of \<open>A\<close> is at most the number of rows of \<open>W\<close>, and at most the rank of \<open>W\<close>.\<close>

lemma pivots_le_rows_of_span:
  assumes A: "\<forall>r\<in>set A. length r = n" and W: "\<forall>r\<in>set W. length r = n"
    and AW: "\<forall>r\<in>set A. in_rowspace n W r"
  shows "length (pivot_cols (rref_rows n A)) \<le> length W"
proof (rule pivots_le_generators [OF is_rref_rref_rows [OF A] W])
  show "\<forall>r\<in>set (rref_rows n A). in_rowspace n W r"
    using rref_rows_in_rowspace [OF A] in_rowspace_trans [OF W AW] by blast
qed

lemma pivots_mono_span:
  assumes A: "\<forall>r\<in>set A. length r = n" and W: "\<forall>r\<in>set W. length r = n"
    and AW: "\<forall>r\<in>set A. in_rowspace n W r"
  shows "length (pivot_cols (rref_rows n A)) \<le> length (pivot_cols (rref_rows n W))"
proof -
  let ?E = "rref_rows n W"
  let ?p = "length (pivot_cols ?E)"
  have E: "is_rref n ?E" by (rule is_rref_rref_rows [OF W])
  have okE: "\<forall>r\<in>set ?E. length r = n" by (rule is_rref_rows_ok [OF E])
  have okZ: "\<forall>r\<in>set (take ?p ?E). length r = n" using okE by (auto dest: in_set_takeD)
  have WE: "\<forall>r\<in>set W. in_rowspace n ?E r" using rows_in_rowspace_rref [OF W] by blast
  have EZ: "\<forall>r\<in>set ?E. in_rowspace n (take ?p ?E) r"
    using rref_nonzero_rows_span [OF E] by blast
  have "\<forall>r\<in>set A. in_rowspace n ?E r"
    using AW in_rowspace_trans [OF okE WE] by blast
  then have "\<forall>r\<in>set A. in_rowspace n (take ?p ?E) r"
    using in_rowspace_trans [OF okZ EZ] by blast
  from pivots_le_rows_of_span [OF A okZ this]
  show ?thesis using length_pivot_cols_le [of ?E] by simp
qed

section \<open>Rank and linear independence\<close>

lemma dependent_rows_span:
  "\<forall>r\<in>set A. length r = n \<Longrightarrow> length c = length A \<Longrightarrow> c \<noteq> zerov (length A) \<Longrightarrow>
   vecmat n c A = zerov n \<Longrightarrow>
   \<exists>W. length W < length A \<and> (\<forall>r\<in>set W. length r = n) \<and> (\<forall>r\<in>set A. in_rowspace n W r)"
proof (induction A arbitrary: c)
  case Nil
  then show ?case by simp
next
  case (Cons r A)
  obtain a c' where c: "c = a # c'" "length c' = length A" using Cons.prems(2) by (cases c) auto
  have okA: "\<forall>r\<in>set A. length r = n" and lr: "length r = n" using Cons.prems(1) by auto
  have lv: "length (vecmat n c' A) = n" using okA by simp
  show ?case
  proof (cases "a = 0")
    case True
    have "c' \<noteq> zerov (length A)" using Cons.prems(3) True c by auto
    moreover have "vecmat n c' A = zerov n" using Cons.prems(4) True c lr lv by simp
    ultimately obtain W where W: "length W < length A" "\<forall>r\<in>set W. length r = n"
      "\<forall>r\<in>set A. in_rowspace n W r"
      using Cons.IH [OF okA c(2)] by blast
    have ok: "\<forall>x\<in>set (r # W). length x = n" using W lr by auto
    have "\<forall>x\<in>set (r # A). in_rowspace n (r # W) x"
    proof
      fix x assume "x \<in> set (r # A)"
      then consider "x = r" | "x \<in> set A" by auto
      then show "in_rowspace n (r # W) x"
      proof cases
        case 1
        then show ?thesis using in_rowspace_member [OF ok] by simp
      next
        case 2
        then have "in_rowspace n W x" using W by blast
        then show ?thesis by (rule in_rowspace_mono [OF ok, rotated]) auto
      qed
    qed
    then show ?thesis using W ok by (intro exI [of _ "r # W"]) simp
  next
    case False
    have eq: "vadd (smult a r) (vecmat n c' A) = zerov n" using Cons.prems(4) c by simp
    have "r = smult (- inverse a) (vecmat n c' A)"
    proof (rule nth_equalityI)
      show "length r = length (smult (- inverse a) (vecmat n c' A))" using lr lv by simp
    next
      fix i assume i: "i < length r"
      then have "vadd (smult a r) (vecmat n c' A) ! i = 0" using eq lr by simp
      then have "a * r ! i + vecmat n c' A ! i = 0" using i lr lv by simp
      then have "vecmat n c' A ! i = - (a * r ! i)" by (simp add: eq_neg_iff_add_eq_0 add.commute)
      then show "r ! i = smult (- inverse a) (vecmat n c' A) ! i"
        using i lr lv False by simp
    qed
    moreover have "in_rowspace n A (smult (- inverse a) (vecmat n c' A))"
      by (intro in_rowspace_smult okA in_rowspaceI [of c']) (simp_all add: c)
    ultimately have "in_rowspace n A r" by simp
    then have "\<forall>x\<in>set (r # A). in_rowspace n A x"
      using in_rowspace_member [OF okA] by auto
    then show ?thesis using okA by (intro exI [of _ A]) simp
  qed
qed

lemma full_rank_indep:
  assumes "\<forall>r\<in>set A. length r = n" "length (pivot_cols (rref_rows n A)) = length A"
  shows "lin_indep n A"
  unfolding lin_indep_def
proof (intro allI impI, rule ccontr)
  fix c assume a: "length c = length A \<and> vecmat n c A = zerov n" and "c \<noteq> zerov (length A)"
  then obtain W where W: "length W < length A" "\<forall>r\<in>set W. length r = n"
      "\<forall>r\<in>set A. in_rowspace n W r"
    using dependent_rows_span [OF assms(1), of c] by blast
  from pivots_le_rows_of_span [OF assms(1) W(2,3)] show False using W(1) assms(2) by simp
qed

section \<open>Splitting an augmented matrix\<close>

lemma take_vecmat:
  "\<forall>r\<in>set X. length r = n + m \<Longrightarrow> take n (vecmat (n + m) c X) = vecmat n c (map (take n) X)"
proof (induction "n + m" c X rule: vecmat.induct)
  case (1 a c r A)
  then show ?case by (simp add: vadd_def smult_def take_zip take_map)
qed (simp_all add: zerov_def)

lemma drop_vecmat:
  "\<forall>r\<in>set X. length r = n + m \<Longrightarrow> drop n (vecmat (n + m) c X) = vecmat m c (map (drop n) X)"
proof (induction "n + m" c X rule: vecmat.induct)
  case (1 a c r A)
  then show ?case by (simp add: vadd_def smult_def drop_zip drop_map)
qed (simp_all add: zerov_def)

lemma in_rowspace_take:
  "\<forall>r\<in>set X. length r = n + m \<Longrightarrow> in_rowspace (n + m) X v \<Longrightarrow>
   in_rowspace n (map (take n) X) (take n v)"
  unfolding in_rowspace_def by (auto simp: take_vecmat)

lemma map_take_append:
  "length A = length B \<Longrightarrow> \<forall>r\<in>set A. length r = n \<Longrightarrow> map (take n) (map2 (@) A B) = A"
  by (induction A B rule: list_induct2) simp_all

lemma map_drop_append:
  "length A = length B \<Longrightarrow> \<forall>r\<in>set A. length r = n \<Longrightarrow> map (drop n) (map2 (@) A B) = B"
  by (induction A B rule: list_induct2) simp_all

lemma map2_append_ok:
  "length A = length B \<Longrightarrow> \<forall>r\<in>set A. length r = n \<Longrightarrow> \<forall>r\<in>set B. length r = m \<Longrightarrow>
   \<forall>r\<in>set (map2 (@) A B). length r = n + m"
  by (induction A B rule: list_induct2) simp_all

section \<open>The identity matrix and the inverse\<close>

lemma is_rref_identity: "is_rref n (identity_rows n)"
proof (induction n)
  case 0
  then show ?case by (simp add: rref_empty)
next
  case (Suc n)
  have "list_all (\<lambda>r. case leading r of None \<Rightarrow> True | Some j \<Rightarrow> zerov n ! j = (0::'a))
          (identity_rows n)"
    unfolding list_all_iff
    by (auto split: option.splits dest!: leading_less simp: identity_rows_ok)
  then show ?case using rref_pivot [OF Suc, of "zerov n"] by simp
qed

lemma pivot_cols_identity: "length (pivot_cols (identity_rows n :: 'a::field list list)) = n"
  by (induction n) simp_all

text \<open>A reduced matrix with \<open>n\<close> rows and \<open>n\<close> columns whose row space contains the unit
  vectors is the identity.\<close>

lemma rref_spanning_identity:
  assumes E: "is_rref n E" and I: "\<forall>e\<in>set (identity_rows n). in_rowspace n E e"
  shows "take n E = identity_rows n"
proof -
  let ?p = "length (pivot_cols E)"
  have ok: "\<forall>r\<in>set (take ?p E). length r = n"
    using is_rref_rows_ok [OF E] by (auto dest: in_set_takeD)
  have "\<forall>e\<in>set (identity_rows n). in_rowspace n (take ?p E) e"
    using I in_rowspace_trans [OF ok] rref_nonzero_rows_span [OF E] by blast
  from pivots_le_generators [OF is_rref_identity ok this]
  have "n \<le> ?p" using length_pivot_cols_le [of E] by (simp add: pivot_cols_identity)
  then have "?p = n" using is_rref_pivots_le [OF E] by simp
  then show ?thesis by (rule is_rref_full_pivots [OF E])
qed

lemma inverse_rows_exists:
  assumes A: "\<forall>r\<in>set A. length r = n" and lA: "length A = n"
    and I: "\<forall>e\<in>set (identity_rows n). in_rowspace n A e"
  shows "map (take n) (rref_rows (n + n) (map2 (@) A (identity_rows n))) = identity_rows n"
proof -
  define X where "X = map2 (@) A (identity_rows n :: 'a list list)"
  define E where "E = rref_rows (n + n) X"
  have okX: "\<forall>r\<in>set X. length r = n + n"
    unfolding X_def by (rule map2_append_ok) (use A lA in \<open>auto simp: identity_rows_ok\<close>)
  have E: "is_rref (n + n) E" unfolding E_def by (rule is_rref_rref_rows [OF okX])
  have okE: "\<forall>r\<in>set E. length r = n + n" by (rule is_rref_rows_ok [OF E])
  have L: "is_rref n (map (take n) E)" by (rule is_rref_take [OF E])
  have okL: "\<forall>r\<in>set (map (take n) E). length r = n" by (rule is_rref_rows_ok [OF L])
  have "in_rowspace n (map (take n) E) a" if "a \<in> set A" for a
  proof -
    have "map (take n) X = A" unfolding X_def
      by (rule map_take_append) (simp_all add: lA A)
    then have "a \<in> set (map (take n) X)" using that by simp
    then obtain x where x: "x \<in> set X" "a = take n x" by auto
    have "in_rowspace (n + n) E x" unfolding E_def by (rule rows_in_rowspace_rref [OF okX x(1)])
    then show ?thesis unfolding x(2) by (rule in_rowspace_take [OF okE])
  qed
  then have "\<forall>e\<in>set (identity_rows n). in_rowspace n (map (take n) E) e"
    using I in_rowspace_trans [OF okL] by blast
  from rref_spanning_identity [OF L this]
  show ?thesis unfolding E_def X_def by (simp add: lA)
qed

lemma inverse_rows_correct:
  assumes A: "\<forall>r\<in>set A. length r = n" and lA: "length A = n"
    and E: "E = rref_rows (n + n) (map2 (@) A (identity_rows n))"
    and L: "map (take n) E = identity_rows n"
  shows "map (\<lambda>x. vecmat n x A) (map (drop n) E) = identity_rows n"
    and "map (\<lambda>a. vecmat n a (map (drop n) E)) A = identity_rows n"
proof -
  define X where "X = map2 (@) A (identity_rows n :: 'a list list)"
  have okX: "\<forall>r\<in>set X. length r = n + n"
    unfolding X_def by (rule map2_append_ok) (use A lA in \<open>auto simp: identity_rows_ok\<close>)
  have EX: "E = rref_rows (n + n) X" unfolding E X_def ..
  have okE: "\<forall>r\<in>set E. length r = n + n" unfolding EX by (rule rref_rows_ok [OF okX])
  have lE: "length E = n" unfolding EX X_def by (simp add: lA)
  have tX: "map (take n) X = A" unfolding X_def
    by (rule map_take_append) (simp_all add: lA A)
  have dX: "map (drop n) X = identity_rows n" unfolding X_def
    by (rule map_drop_append) (simp_all add: lA A)
  have 1: "vecmat n (drop n e) A = take n e" if "e \<in> set E" for e
  proof -
    have "in_rowspace (n + n) X e" using rref_rows_in_rowspace [OF okX] that unfolding EX by blast
    then obtain c where c: "length c = length X" "e = vecmat (n + n) c X"
      unfolding in_rowspace_def by blast
    have "length c = n" using c(1) unfolding X_def by (simp add: lA)
    then have "drop n e = c" unfolding c(2) drop_vecmat [OF okX] dX by simp
    moreover have "take n e = vecmat n c A" unfolding c(2) take_vecmat [OF okX] tX ..
    ultimately show ?thesis by simp
  qed
  have "map (\<lambda>x. vecmat n x A) (map (drop n) E) = map (take n) E"
    unfolding map_map o_def using 1 by (intro map_cong) simp_all
  then show "map (\<lambda>x. vecmat n x A) (map (drop n) E) = identity_rows n" unfolding L .
  have 2: "vecmat n (take n x) (map (drop n) E) = drop n x" if "x \<in> set X" for x
  proof -
    have "in_rowspace (n + n) E x" unfolding EX by (rule rows_in_rowspace_rref [OF okX that])
    then obtain c where c: "length c = length E" "x = vecmat (n + n) c E"
      unfolding in_rowspace_def by blast
    have "take n x = c" unfolding c(2) take_vecmat [OF okE] L using c(1) lE by simp
    moreover have "drop n x = vecmat n c (map (drop n) E)" unfolding c(2) drop_vecmat [OF okE] ..
    ultimately show ?thesis by simp
  qed
  have "map (\<lambda>a. vecmat n a (map (drop n) E)) (map (take n) X) = map (drop n) X"
    unfolding map_map o_def using 2 by (intro map_cong) simp_all
  then show "map (\<lambda>a. vecmat n a (map (drop n) E)) A = identity_rows n" unfolding tX dX .
qed

section \<open>Well-formed matrices\<close>

lemma wf_matrix_iff:
  "wf_matrix A \<longleftrightarrow> length (rows A) = nrows A \<and> (\<forall>r\<in>set (rows A). length r = ncols A)"
  by (simp add: wf_matrix_def list_all_iff)

lemma wf_matrix_rows: "wf_matrix A \<Longrightarrow> \<forall>r\<in>set (rows A). length r = ncols A"
  by (simp add: wf_matrix_iff)

lemma wf_matrix_length: "wf_matrix A \<Longrightarrow> length (rows A) = nrows A"
  by (simp add: wf_matrix_iff)

lemma rref_sel [simp]:
  "nrows (rref A) = nrows A" "ncols (rref A) = ncols A"
  "rows (rref A) = rref_rows (ncols A) (rows A)"
  by (simp_all add: rref_def)

lemma wf_rref: "wf_matrix A \<Longrightarrow> wf_matrix (rref A)"
  using rref_rows_ok [of "rows A" "ncols A"] by (simp add: wf_matrix_iff)

lemma is_rref_rref: "wf_matrix A \<Longrightarrow> is_rref (ncols A) (rows (rref A))"
  by (simp add: is_rref_rref_rows wf_matrix_rows)

lemma rank_pivots: "wf_matrix A \<Longrightarrow> rank A = length (pivots A)"
  unfolding rank_def pivots_def
  by (rule length_pivot_cols_filter) (use wf_rref [of A] in \<open>simp add: wf_matrix_iff\<close>)

lemma rank_pivot_cols:
  "wf_matrix A \<Longrightarrow> rank A = length (pivot_cols (rref_rows (ncols A) (rows A)))"
  by (simp add: rank_pivots pivots_def)

lemma rank_le_nrows: "wf_matrix A \<Longrightarrow> rank A \<le> nrows A"
  using length_pivot_cols_le [of "rref_rows (ncols A) (rows A)"]
  by (simp add: rank_pivot_cols wf_matrix_length)

lemma rank_le_ncols: "wf_matrix A \<Longrightarrow> rank A \<le> ncols A"
  using is_rref_pivots_le [OF is_rref_rref [of A]] by (simp add: rank_pivot_cols)

lemma wf_mat_times:
  "wf_matrix B \<Longrightarrow> length (rows A) = nrows A \<Longrightarrow> mat_times A B = Inr C \<Longrightarrow>
   wf_matrix C \<and> nrows C = nrows A \<and> ncols C = ncols B
   \<and> rows C = map (\<lambda>a. vecmat (ncols B) a (rows B)) (rows A) \<and> ncols A = nrows B"
  by (auto simp: mat_times_def wf_matrix_iff split: if_splits)

lemma wf_transpose: "wf_matrix A \<Longrightarrow> wf_matrix (transpose_mat A)"
  by (auto simp: wf_matrix_iff transpose_mat_def dest: columns_ok)

lemma transpose_sel [simp]:
  "nrows (transpose_mat A) = ncols A" "ncols (transpose_mat A) = nrows A"
  "rows (transpose_mat A) = columns (ncols A) (rows A)"
  by (simp_all add: transpose_mat_def)

section \<open>Rank of a product\<close>

lemma rank_mult_le_right:
  assumes A: "wf_matrix A" and B: "wf_matrix B" and C: "mat_times A B = Inr C"
  shows "rank C \<le> rank B"
proof -
  note c = wf_mat_times [OF B wf_matrix_length [OF A] C]
  have okB: "\<forall>r\<in>set (rows B). length r = ncols B" by (rule wf_matrix_rows [OF B])
  have okC: "\<forall>r\<in>set (rows C). length r = ncols B" using c by (simp add: wf_matrix_iff)
  have "\<forall>r\<in>set (rows C). in_rowspace (ncols B) (rows B) r"
  proof
    fix r assume "r \<in> set (rows C)"
    then obtain a where a: "a \<in> set (rows A)" "r = vecmat (ncols B) a (rows B)" using c by auto
    have "length a = length (rows B)"
      using a(1) c wf_matrix_rows [OF A] wf_matrix_length [OF B] by simp
    then show "in_rowspace (ncols B) (rows B) r" using a(2) by (rule in_rowspaceI)
  qed
  from pivots_mono_span [OF okC okB this]
  show ?thesis using c by (simp add: rank_pivot_cols B)
qed

lemma rank_mult_le_left:
  assumes A: "wf_matrix A" and B: "wf_matrix B" and C: "mat_times A B = Inr C"
  shows "rank C \<le> rank A"
proof -
  note c = wf_mat_times [OF B wf_matrix_length [OF A] C]
  let ?n = "ncols B"
  let ?l = "ncols A"
  let ?E = "rref_rows ?l (rows A)"
  let ?p = "length (pivot_cols ?E)"
  let ?Z = "take ?p ?E"
  let ?W = "map (\<lambda>z. vecmat ?n z (rows B)) ?Z"
  have okA: "\<forall>r\<in>set (rows A). length r = ?l" by (rule wf_matrix_rows [OF A])
  have okB: "\<forall>r\<in>set (rows B). length r = ?n" by (rule wf_matrix_rows [OF B])
  have lB: "length (rows B) = ?l" using c wf_matrix_length [OF B] by simp
  have okC: "\<forall>r\<in>set (rows C). length r = ?n" using c by (simp add: wf_matrix_iff)
  have E: "is_rref ?l ?E" by (rule is_rref_rref_rows [OF okA])
  have okE: "\<forall>r\<in>set ?E. length r = ?l" by (rule is_rref_rows_ok [OF E])
  have okZ: "\<forall>r\<in>set ?Z. length r = ?l" using okE by (auto dest: in_set_takeD)
  have okW: "\<forall>r\<in>set ?W. length r = ?n" using okB by simp
  have AZ: "\<forall>r\<in>set (rows A). in_rowspace ?l ?Z r"
    using rows_in_rowspace_rref [OF okA] rref_nonzero_rows_span [OF E]
      in_rowspace_trans [OF okZ] by blast
  have "\<forall>r\<in>set (rows C). in_rowspace ?n ?W r"
  proof
    fix r assume "r \<in> set (rows C)"
    then obtain a where a: "a \<in> set (rows A)" "r = vecmat ?n a (rows B)" using c by auto
    obtain x where x: "length x = length ?Z" "a = vecmat ?l x ?Z"
      using AZ a(1) unfolding in_rowspace_def by blast
    have "\<forall>z\<in>set ?Z. length z = length (rows B)" using okZ lB by simp
    from vecmat_assoc [OF okB this x(1)]
    have "r = vecmat ?n x ?W" unfolding a(2) x(2) lB .
    then show "in_rowspace ?n ?W r" using x(1) by (intro in_rowspaceI [of x]) simp_all
  qed
  from pivots_le_rows_of_span [OF okC okW this]
  show ?thesis using c length_pivot_cols_le [of ?E] by (simp add: rank_pivot_cols A)
qed

text \<open>
  C9: rank monotonicity under multiplication.  For matrices \<open>A\<close> and \<open>B\<close> whose product
  \<open>A * B\<close> is defined (the number of columns of \<open>A\<close> is the number of rows of \<open>B\<close>), the
  rank of the product is at most the smaller of the ranks of \<open>A\<close> and \<open>B\<close>.
\<close>

theorem rank_mat_times_le:
  assumes "wf_matrix A" and "wf_matrix B" and "ncols A = nrows B"
  shows "\<exists>C. mat_times A B = Inr C \<and> rank C \<le> min (rank A) (rank B)"
proof -
  obtain C where C: "mat_times A B = Inr C" using assms(3) by (simp add: mat_times_def)
  show ?thesis
    using C rank_mult_le_left [OF assms(1,2) C] rank_mult_le_right [OF assms(1,2) C] by simp
qed

theorem rank_mat_times_le_witness:
  "wf_matrix (Matrix 2 2 [[1, 1], [0, 1 :: gf2]]) \<and> wf_matrix (Matrix 2 3 [[1, 0, 1], [1, 0, 1 :: gf2]])
   \<and> ncols (Matrix 2 2 [[1, 1], [0, 1 :: gf2]]) = nrows (Matrix 2 3 [[1, 0, 1], [1, 0, 1 :: gf2]])
   \<and> (\<exists>C. mat_times (Matrix 2 2 [[1, 1], [0, 1 :: gf2]]) (Matrix 2 3 [[1, 0, 1], [1, 0, 1 :: gf2]]) = Inr C
        \<and> rank C \<le> min (rank (Matrix 2 2 [[1, 1], [0, 1 :: gf2]]))
                        (rank (Matrix 2 3 [[1, 0, 1], [1, 0, 1 :: gf2]])))"
proof -
  have 1: "wf_matrix (Matrix 2 2 [[1, 1], [0, 1 :: gf2]])" by code_simp
  have 2: "wf_matrix (Matrix 2 3 [[1, 0, 1], [1, 0, 1 :: gf2]])" by code_simp
  have 3: "ncols (Matrix 2 2 [[1, 1], [0, 1 :: gf2]]) = nrows (Matrix 2 3 [[1, 0, 1], [1, 0, 1 :: gf2]])"
    by simp
  from rank_mat_times_le [OF 1 2 3] 1 2 3 show ?thesis by blast
qed

section \<open>Inverse matrices\<close>

lemma inverse_mat_exists:
  assumes A: "wf_matrix A" and sq: "nrows A = ncols A"
    and I: "\<forall>e\<in>set (identity_rows (nrows A)). in_rowspace (nrows A) (rows A) e"
  shows "\<exists>X. inverse_mat A = Inr X"
proof -
  have "map (take (nrows A)) (rref_rows (nrows A + nrows A)
          (map2 (@) (rows A) (identity_rows (nrows A)))) = identity_rows (nrows A)"
    by (rule inverse_rows_exists [OF _ wf_matrix_length [OF A] I])
       (use wf_matrix_rows [OF A] sq in simp)
  then show ?thesis using sq by (simp add: inverse_mat_def Let_def)
qed

lemma inverse_mat_correct:
  assumes A: "wf_matrix A" and X: "inverse_mat A = Inr X"
  shows "wf_matrix X \<and> nrows X = nrows A \<and> ncols X = nrows A \<and> ncols A = nrows A
    \<and> map (\<lambda>x. vecmat (nrows A) x (rows A)) (rows X) = identity_rows (nrows A)
    \<and> map (\<lambda>a. vecmat (nrows A) a (rows X)) (rows A) = identity_rows (nrows A)"
proof -
  let ?n = "nrows A"
  define E where "E = rref_rows (?n + ?n) (map2 (@) (rows A) (identity_rows ?n))"
  have sq: "?n = ncols A" using X by (auto simp: inverse_mat_def split: if_splits)
  have L: "map (take ?n) E = identity_rows ?n"
    and XE: "X = Matrix ?n ?n (map (drop ?n) E)"
    using X sq unfolding E_def by (auto simp: inverse_mat_def Let_def split: if_splits)
  have okA: "\<forall>r\<in>set (rows A). length r = ?n" using wf_matrix_rows [OF A] sq by simp
  note corr = inverse_rows_correct [OF okA wf_matrix_length [OF A] E_def L]
  have okX: "\<forall>r\<in>set (map (drop ?n) E). length r = ?n"
  proof -
    have "\<forall>r\<in>set (map2 (@) (rows A) (identity_rows ?n :: 'a list list)). length r = ?n + ?n"
      by (rule map2_append_ok) (use okA wf_matrix_length [OF A] in \<open>auto simp: identity_rows_ok\<close>)
    from rref_rows_ok [OF this] show ?thesis unfolding E_def by auto
  qed
  have "length E = ?n" unfolding E_def by (simp add: wf_matrix_length [OF A])
  then have "wf_matrix X" unfolding XE using okX by (simp add: wf_matrix_iff)
  then show ?thesis using corr sq unfolding XE by simp
qed

lemma inverse_mat_times:
  assumes A: "wf_matrix A" and X: "inverse_mat A = Inr X"
  shows "mat_times A X = Inr (identity_matrix (nrows A))"
    and "mat_times X A = Inr (identity_matrix (nrows A))"
  using inverse_mat_correct [OF A X]
  by (simp_all add: mat_times_def identity_matrix_def)

lemma full_rank_identity_span:
  assumes A: "wf_matrix A" and sq: "nrows A = ncols A" and rk: "rank A = nrows A"
  shows "\<forall>e\<in>set (identity_rows (nrows A)). in_rowspace (nrows A) (rows A) e"
proof -
  let ?n = "nrows A"
  let ?E = "rref_rows ?n (rows A)"
  have okA: "\<forall>r\<in>set (rows A). length r = ?n" using wf_matrix_rows [OF A] sq by simp
  have E: "is_rref ?n ?E" by (rule is_rref_rref_rows [OF okA])
  have "length (pivot_cols ?E) = ?n" using rk sq by (simp add: rank_pivot_cols A)
  from is_rref_full_pivots [OF E this]
  have "?E = identity_rows ?n" by (simp add: wf_matrix_length [OF A])
  then show ?thesis using rref_rows_in_rowspace [OF okA] by auto
qed

lemma inverse_mat_full_rank:
  "wf_matrix A \<Longrightarrow> nrows A = ncols A \<Longrightarrow> rank A = nrows A \<Longrightarrow> \<exists>X. inverse_mat A = Inr X"
  by (intro inverse_mat_exists full_rank_identity_span)

section \<open>Pivot columns of a matrix of full row rank\<close>

lemma pivots_full_rank:
  assumes G: "wf_matrix G" and rk: "rank G = nrows G"
  shows "length (pivots G) = nrows G"
    and "\<forall>j\<in>set (pivots G). j < ncols G"
    and "\<forall>e\<in>set (identity_rows (nrows G)).
           in_rowspace (nrows G) (map (select (pivots G)) (rows G)) e"
proof -
  let ?n = "ncols G"
  let ?k = "nrows G"
  let ?E = "rref_rows ?n (rows G)"
  let ?J = "pivots G"
  have J: "?J = pivot_cols ?E" by (simp add: pivots_def)
  have okG: "\<forall>r\<in>set (rows G). length r = ?n" by (rule wf_matrix_rows [OF G])
  have E: "is_rref ?n ?E" by (rule is_rref_rref_rows [OF okG])
  show lJ: "length ?J = ?k" using rk rank_pivots [OF G] by simp
  show Jn: "\<forall>j\<in>set ?J. j < ?n"
    unfolding J using pivot_cols_less [OF is_rref_rows_ok [OF E]] by blast
  have "length ?E = ?k" by (simp add: wf_matrix_length [OF G])
  then have I: "map (select ?J) ?E = identity_rows ?k"
    using is_rref_select_pivots [OF E] lJ unfolding J by simp
  show "\<forall>e\<in>set (identity_rows ?k). in_rowspace ?k (map (select ?J) (rows G)) e"
  proof
    fix e :: "'a list" assume "e \<in> set (identity_rows ?k)"
    then obtain r where r: "r \<in> set ?E" "e = select ?J r" unfolding I [symmetric] by auto
    obtain c where c: "length c = length (rows G)" "r = vecmat ?n c (rows G)"
      using rref_rows_in_rowspace [OF okG r(1)] unfolding in_rowspace_def by blast
    have "e = vecmat (length ?J) c (map (select ?J) (rows G))"
      unfolding r(2) c(2) by (rule select_vecmat [OF okG Jn])
    then show "in_rowspace ?k (map (select ?J) (rows G)) e"
      using c(1) lJ by (intro in_rowspaceI [of c]) simp_all
  qed
qed

lemma matrix_from_columns_pivots:
  assumes G: "wf_matrix G" and rk: "rank G = nrows G"
  shows "matrix_from_columns G (pivots G)
           = Inr (Matrix (nrows G) (nrows G) (map (select (pivots G)) (rows G)))"
  using pivots_full_rank(1,2) [OF G rk] by (simp add: matrix_from_columns_def list_all_iff)

text \<open>
  C6: pivot invertibility.  For a matrix \<open>G\<close> with \<open>k\<close> rows of full row rank \<open>k\<close>, the list
  \<open>J\<close> of pivot columns has \<open>k\<close> entries, and the \<open>k \<times> k\<close> submatrix of \<open>G\<close> formed by the
  columns in \<open>J\<close> is invertible: its inverse exists and is a two-sided inverse.
\<close>

theorem pivot_submatrix_invertible:
  assumes "wf_matrix G" and "rank G = nrows G"
  shows "\<exists>GJ X. length (pivots G) = nrows G
     \<and> matrix_from_columns G (pivots G) = Inr GJ \<and> inverse_mat GJ = Inr X
     \<and> mat_times GJ X = Inr (identity_matrix (nrows G))
     \<and> mat_times X GJ = Inr (identity_matrix (nrows G))"
proof -
  let ?k = "nrows G"
  define GJ where "GJ = Matrix ?k ?k (map (select (pivots G)) (rows G))"
  note p = pivots_full_rank [OF assms]
  have wf: "wf_matrix GJ" unfolding GJ_def
    by (simp add: wf_matrix_iff wf_matrix_length [OF assms(1)] p(1))
  have "\<exists>X. inverse_mat GJ = Inr X"
    by (rule inverse_mat_exists [OF wf]) (use p(3) in \<open>simp_all add: GJ_def\<close>)
  then obtain X where X: "inverse_mat GJ = Inr X" by blast
  have "nrows GJ = ?k" by (simp add: GJ_def)
  then show ?thesis
    using matrix_from_columns_pivots [OF assms] inverse_mat_times [OF wf X] X p(1)
    unfolding GJ_def [symmetric] by auto
qed

theorem pivot_submatrix_invertible_witness:
  "wf_matrix (Matrix 2 3 [[0, 1, 1], [0, 1, 0 :: gf2]])
   \<and> rank (Matrix 2 3 [[0, 1, 1], [0, 1, 0 :: gf2]]) = nrows (Matrix 2 3 [[0, 1, 1], [0, 1, 0 :: gf2]])
   \<and> (\<exists>GJ X. length (pivots (Matrix 2 3 [[0, 1, 1], [0, 1, 0 :: gf2]])) = 2
     \<and> matrix_from_columns (Matrix 2 3 [[0, 1, 1], [0, 1, 0 :: gf2]])
          (pivots (Matrix 2 3 [[0, 1, 1], [0, 1, 0 :: gf2]])) = Inr GJ
     \<and> inverse_mat GJ = Inr X
     \<and> mat_times GJ X = Inr (identity_matrix 2) \<and> mat_times X GJ = Inr (identity_matrix 2))"
proof -
  have 1: "wf_matrix (Matrix 2 3 [[0, 1, 1], [0, 1, 0 :: gf2]])" by code_simp
  have 2: "rank (Matrix 2 3 [[0, 1, 1], [0, 1, 0 :: gf2]])
           = nrows (Matrix 2 3 [[0, 1, 1], [0, 1, 0 :: gf2]])" by code_simp
  from pivot_submatrix_invertible [OF 1 2] 1 2 show ?thesis by simp
qed

section \<open>The right kernel\<close>

lemma columns_single: "length r = n \<Longrightarrow> columns n [r] = map (\<lambda>x. [x]) r"
proof (induction n arbitrary: r)
  case 0
  then show ?case by simp
next
  case (Suc n)
  then show ?case by (cases r) simp_all
qed

lemma vecmat_column:
  "length a = length r \<Longrightarrow> vecmat (Suc 0) a (map (\<lambda>x. [x]) r) = [dot a r]"
  by (induction a r rule: list_induct2) simp_all

lemma mat_times_column:
  assumes "wf_matrix A" "length r = ncols A"
  shows "mat_times A (transpose_mat (Matrix 1 (ncols A) [r]))
         = Inr (Matrix (nrows A) 1 (map (\<lambda>a. [dot a r]) (rows A)))"
proof -
  have "map (\<lambda>a. vecmat 1 a (map (\<lambda>x. [x]) r)) (rows A) = map (\<lambda>a. [dot a r]) (rows A)"
    using wf_matrix_rows [OF assms(1)] assms(2) by (intro map_cong) (simp_all add: vecmat_column)
  then show ?thesis using assms(2) by (simp add: mat_times_def columns_single)
qed

lemma right_kernel_sel [simp]:
  "ncols (right_kernel_matrix A) = ncols A"
  "rows (right_kernel_matrix A) = kernel_rows (ncols A) (rows (rref A))"
  "nrows (right_kernel_matrix A) = length (kernel_rows (ncols A) (rows (rref A)))"
  by (simp_all add: right_kernel_matrix_def Let_def)

lemma right_kernel_props:
  assumes A: "wf_matrix A"
  shows "wf_matrix (right_kernel_matrix A)"
    and "nrows (right_kernel_matrix A) = ncols A - rank A"
    and "\<forall>r\<in>set (rows (right_kernel_matrix A)). \<forall>a\<in>set (rows A). dot a r = 0"
    and "lin_indep (ncols A) (rows (right_kernel_matrix A))"
proof -
  let ?n = "ncols A"
  let ?E = "rref_rows ?n (rows A)"
  have okA: "\<forall>r\<in>set (rows A). length r = ?n" by (rule wf_matrix_rows [OF A])
  have E: "is_rref ?n ?E" by (rule is_rref_rref_rows [OF okA])
  show "wf_matrix (right_kernel_matrix A)"
    using kernel_rows_ok [OF E] by (simp add: wf_matrix_iff)
  show "nrows (right_kernel_matrix A) = ?n - rank A"
    using length_kernel_rows [OF E] by (simp add: rank_pivot_cols A)
  show "\<forall>r\<in>set (rows (right_kernel_matrix A)). \<forall>a\<in>set (rows A). dot a r = 0"
    using dot_rowspace [OF is_rref_rows_ok [OF E]] kernel_rows_dot [OF E]
      rows_in_rowspace_rref [OF okA] by auto
  show "lin_indep ?n (rows (right_kernel_matrix A))"
    using kernel_rows_indep [OF E] by simp
qed

text \<open>
  C8: kernel correctness.  For a matrix \<open>A\<close> with \<open>n\<close> columns, every row \<open>r\<close> of the right
  kernel basis matrix satisfies \<open>A * transpose(r) = 0\<close>, and the basis matrix has exactly
  \<open>n - rank(A)\<close> rows, which are linearly independent.
\<close>

theorem right_kernel_correct:
  assumes "wf_matrix A"
  shows "wf_matrix (right_kernel_matrix A) \<and> ncols (right_kernel_matrix A) = ncols A
    \<and> list_all (\<lambda>r. mat_times A (transpose_mat (Matrix 1 (ncols A) [r]))
                       = Inr (Matrix (nrows A) 1 (replicate (nrows A) [0])))
         (rows (right_kernel_matrix A))
    \<and> nrows (right_kernel_matrix A) = ncols A - rank A
    \<and> lin_indep (ncols A) (rows (right_kernel_matrix A))"
proof -
  note k = right_kernel_props [OF assms]
  have "mat_times A (transpose_mat (Matrix 1 (ncols A) [r]))
          = Inr (Matrix (nrows A) 1 (replicate (nrows A) [0]))"
    if r: "r \<in> set (rows (right_kernel_matrix A))" for r
  proof -
    have "length r = ncols A" using wf_matrix_rows [OF k(1)] r by simp
    moreover have "map (\<lambda>a. [dot a r]) (rows A) = replicate (nrows A) [0]"
      using k(3) r wf_matrix_length [OF assms] by (intro replicate_eqI) auto
    ultimately show ?thesis using mat_times_column [OF assms] by simp
  qed
  then show ?thesis using k(1,2,4) unfolding list_all_iff by simp
qed

theorem right_kernel_correct_witness:
  "wf_matrix (Matrix 2 3 [[1, 0, 1], [0, 1, 1 :: gf2]])
   \<and> right_kernel_matrix (Matrix 2 3 [[1, 0, 1], [0, 1, 1 :: gf2]]) = Matrix 1 3 [[1, 1, 1]]
   \<and> list_all (\<lambda>r. mat_times (Matrix 2 3 [[1, 0, 1], [0, 1, 1 :: gf2]]) (transpose_mat (Matrix 1 3 [r]))
                       = Inr (Matrix 2 1 [[0], [0]]))
         [[1, 1, 1]]
   \<and> rank (Matrix 2 3 [[1, 0, 1], [0, 1, 1 :: gf2]]) = 2
   \<and> lin_indep 3 [[1, 1, 1 :: gf2]]"
proof -
  have 1: "wf_matrix (Matrix 2 3 [[1, 0, 1], [0, 1, 1 :: gf2]])" by code_simp
  have 2: "right_kernel_matrix (Matrix 2 3 [[1, 0, 1], [0, 1, 1 :: gf2]]) = Matrix 1 3 [[1, 1, 1]]"
    by code_simp
  have 3: "rank (Matrix 2 3 [[1, 0, 1], [0, 1, 1 :: gf2]]) = 2" by code_simp
  have 4: "replicate (Suc (Suc 0)) [0 :: gf2] = [[0], [0]]" by simp
  from right_kernel_correct [OF 1] 1 3 show ?thesis unfolding 2 by (simp add: 4 numeral_2_eq_2)
qed

section \<open>The rejection loop\<close>

lemma random_mat_sel:
  "fst (random_mat k n rs) = nth_sample k n rs 0"
  "snd (random_mat k n rs) = (\<lambda>t. rs (t + k * n))"
  by (simp_all add: random_mat_def nth_sample_def)

lemma nth_sample_shift:
  "nth_sample k n (\<lambda>t. rs (t + k * n)) i = nth_sample k n rs (Suc i)"
  by (simp add: nth_sample_def random_mat_def algebra_simps)

lemma random_nonsingular_matrix_Some:
  assumes "random_nonsingular_matrix k n rs = Some y"
  shows "\<exists>i. rank (nth_sample k n rs i) = min k n"
proof (rule random_nonsingular_matrix.raw_induct
    [where P = "\<lambda>k n rs y. \<exists>i. rank (nth_sample k n rs i) = min k n", OF _ assms])
  fix f :: "nat \<Rightarrow> nat \<Rightarrow> 'a rand \<Rightarrow> ('a matrix \<times> 'a rand) option"
  fix k n rs y
  assume IH: "\<And>k n rs y. f k n rs = Some y \<Longrightarrow> \<exists>i. rank (nth_sample k n rs i) = min k n"
    and step: "(case random_mat k n rs of
       (G, rs1) \<Rightarrow> if rank G = min k n then Some (G, rs1) else f k n rs1) = Some y"
  show "\<exists>i. rank (nth_sample k n rs i) = min k n"
  proof (cases "rank (nth_sample k n rs 0) = min k n")
    case True
    then show ?thesis by blast
  next
    case False
    then have "f k n (\<lambda>t. rs (t + k * n)) = Some y"
      using step by (simp add: random_mat_def nth_sample_def)
    from IH [OF this] show ?thesis unfolding nth_sample_shift by blast
  qed
qed

lemma random_nonsingular_matrix_first:
  "rank (nth_sample k n rs i) = min k n \<Longrightarrow> \<forall>j<i. rank (nth_sample k n rs j) \<noteq> min k n \<Longrightarrow>
   random_nonsingular_matrix k n rs = Some (nth_sample k n rs i, \<lambda>t. rs (t + Suc i * (k * n)))"
proof (induction i arbitrary: rs)
  case 0
  then show ?case
    by (subst random_nonsingular_matrix.simps) (simp add: random_mat_def nth_sample_def)
next
  case (Suc i)
  let ?rs = "\<lambda>t. rs (t + k * n)"
  have 0: "rank (nth_sample k n rs 0) \<noteq> min k n" using Suc.prems(2) by blast
  have "random_nonsingular_matrix k n ?rs
        = Some (nth_sample k n ?rs i, \<lambda>t. ?rs (t + Suc i * (k * n)))"
    by (rule Suc.IH) (use Suc.prems in \<open>auto simp: nth_sample_shift\<close>)
  moreover have "(\<lambda>t. ?rs (t + Suc i * (k * n))) = (\<lambda>t. rs (t + Suc (Suc i) * (k * n)))"
    by (rule ext) (simp add: algebra_simps)
  moreover have "random_nonsingular_matrix k n rs = random_nonsingular_matrix k n ?rs"
    using 0 by (subst random_nonsingular_matrix.simps) (simp add: random_mat_def nth_sample_def)
  ultimately show ?case by (simp add: nth_sample_shift)
qed

text \<open>
  C5 (as the code has it): the loop has no retry bound and no \<open>GenerationFailed\<close> outcome.
  It returns the first sample of full rank that the random source yields, together with
  the rest of the source, after any number of rejected samples; it does not return when
  the source yields no sample of full rank.
\<close>

theorem random_nonsingular_matrix_unbounded:
  "random_nonsingular_matrix k n rs =
     (if \<exists>i. rank (nth_sample k n rs i) = min k n
      then Some (nth_sample k n rs (LEAST i. rank (nth_sample k n rs i) = min k n),
                 \<lambda>t. rs (t + Suc (LEAST i. rank (nth_sample k n rs i) = min k n) * (k * n)))
      else None)"
proof (cases "\<exists>i. rank (nth_sample k n rs i) = min k n")
  case True
  let ?i = "LEAST i. rank (nth_sample k n rs i) = min k n"
  have a: "rank (nth_sample k n rs ?i) = min k n" using True by (rule LeastI_ex)
  have b: "\<forall>j<?i. rank (nth_sample k n rs j) \<noteq> min k n"
    using not_less_Least by blast
  have "random_nonsingular_matrix k n rs
        = Some (nth_sample k n rs ?i, \<lambda>t. rs (t + Suc ?i * (k * n)))"
    by (rule random_nonsingular_matrix_first [OF a b])
  then show ?thesis using True by (simp only: if_True)
next
  case False
  then have "random_nonsingular_matrix k n rs = None"
    using random_nonsingular_matrix_Some [of k n rs] by (cases "random_nonsingular_matrix k n rs") auto
  then show ?thesis using False by simp
qed

theorem random_nonsingular_matrix_unbounded_witness:
  "fst (the (random_nonsingular_matrix 1 1 (tape [0, 0, 1 :: gf2]))) = Matrix 1 1 [[1]]"
proof -
  let ?full = "\<lambda>i. rank (nth_sample 1 1 (tape [0, 0, 1 :: gf2]) i) = min 1 1"
  have 0: "\<not> ?full 0" by code_simp
  have 1: "\<not> ?full 1" by code_simp
  have 2: "?full 2" by code_simp
  have 3: "nth_sample 1 1 (tape [0, 0, 1 :: gf2]) 2 = Matrix 1 1 [[1]]" by code_simp
  have L: "(LEAST i. ?full i) = 2"
  proof (rule Least_equality)
    show "?full 2" by (rule 2)
  next
    fix y assume y: "?full y"
    show "2 \<le> y"
    proof (rule ccontr)
      assume "\<not> 2 \<le> y"
      then have "y = 0 \<or> y = 1" by auto
      then show False using 0 1 y by blast
    qed
  qed
  have ex: "\<exists>i. ?full i" using 2 by blast
  have "random_nonsingular_matrix 1 1 (tape [0, 0, 1 :: gf2])
        = Some (nth_sample 1 1 (tape [0, 0, 1 :: gf2]) 2,
                \<lambda>t. tape [0, 0, 1 :: gf2] (t + Suc 2 * (1 * 1)))"
    by (simp only: random_nonsingular_matrix_unbounded [of 1 1 "tape [0, 0, 1 :: gf2]"]
        L ex if_True)
  then show ?thesis by (simp only: 3 option.sel fst_conv)
qed

text \<open>
  Counterexample to C5 as stated: on the source that yields zeros only, the loop for a
  \<open>1 \<times> 1\<close> matrix rejects every sample; it never returns, and there is no retry bound
  after which it would report a failure.
\<close>

theorem random_nonsingular_matrix_diverges:
  "random_nonsingular_matrix 1 1 (tape ([] :: gf2 list)) = None"
proof -
  have "rank (nth_sample 1 1 (tape ([] :: gf2 list)) i) \<noteq> min 1 1" for i
  proof -
    have "nth_sample 1 1 (tape ([] :: gf2 list)) i = Matrix 1 1 [[0]]"
      by (simp add: nth_sample_def random_mat_def tape_def)
    moreover have "rank (Matrix 1 1 [[0 :: gf2]]) \<noteq> min 1 1" by code_simp
    ultimately show ?thesis by simp
  qed
  then show ?thesis
    using random_nonsingular_matrix_Some [of 1 1 "tape ([] :: gf2 list)"]
    by (cases "random_nonsingular_matrix 1 1 (tape ([] :: gf2 list))") auto
qed

section \<open>The rows the attack keeps of the reduced second public matrix\<close>

lemma filter_map_Cons0:
  "filter (\<lambda>r. r \<noteq> 0 # z) (map ((#) 0) E) = map ((#) 0) (filter (\<lambda>r. r \<noteq> z) E)"
  by (induction E) simp_all

lemma is_rref_filter_nonzero:
  "is_rref n E \<Longrightarrow> filter (\<lambda>r. r \<noteq> zerov n) E = take (length (pivot_cols E)) E"
proof (induction rule: is_rref.induct)
  case (rref_empty E)
  then have "\<forall>r\<in>set E. r = []" by (simp add: list_all_iff)
  then show ?case by (simp add: pivot_cols_empty filter_empty_conv)
next
  case (rref_free n E)
  then show ?case by (simp add: filter_map_Cons0 take_map)
next
  case (rref_pivot n E v)
  then show ?case by (simp add: filter_map_Cons0 take_map)
qed

lemma take_eq_take_iff:
  "a \<le> length xs \<Longrightarrow> b \<le> length xs \<Longrightarrow> take a xs = take b xs \<longleftrightarrow> a = b"
  by (metis length_take min.absorb2)

text \<open>
  The attack keeps the first \<open>n - k\<close> rows of the reduced row echelon form of \<open>G2\<close>.  For a
  matrix \<open>G2\<close> with \<open>n\<close> rows and \<open>k \<le> n\<close>, these are exactly the nonzero rows of the
  reduced row echelon form if and only if the rank of \<open>G2\<close> is \<open>n - k\<close>.
\<close>

lemma attack_G2red_rows_iff:
  assumes "wf_matrix G2" and "nrows G2 = n" and "k \<le> n"
  shows "rows (attack_G2red n k (G1, G2)) = filter (\<lambda>r. r \<noteq> zerov (ncols G2)) (rows (rref G2))
         \<longleftrightarrow> rank G2 = n - k"
proof -
  let ?E = "rref_rows (ncols G2) (rows G2)"
  have E: "is_rref (ncols G2) ?E" using is_rref_rref [OF assms(1)] by simp
  have lE: "length ?E = n" using wf_matrix_length [OF assms(1)] assms(2) by simp
  have "rows (attack_G2red n k (G1, G2)) = take (n - k) ?E"
    using assms(3) by (simp add: attack_G2red_def slice_upto_def Let_def nat_diff_distrib')
  moreover have "filter (\<lambda>r. r \<noteq> zerov (ncols G2)) (rows (rref G2)) = take (rank G2) ?E"
    using is_rref_filter_nonzero [OF E] by (simp add: rank_pivot_cols assms(1))
  moreover have "take (n - k) ?E = take (rank G2) ?E \<longleftrightarrow> n - k = rank G2"
    by (rule take_eq_take_iff) (use lE rank_le_nrows [OF assms(1)] assms(2) in simp_all)
  ultimately show ?thesis by auto
qed

section \<open>Decryption of an inconsistent system\<close>

lemma bind_err_neq:
  "r \<noteq> Inl e \<Longrightarrow> (\<And>x. f x \<noteq> Inl e) \<Longrightarrow> bind_err r f \<noteq> Inl e"
  by (cases r) (simp_all add: bind_err_def)

lemma ops_not_Inconsistent:
  "inverse_mat A \<noteq> Inl Inconsistent"
  "vec_times_mat v A \<noteq> Inl Inconsistent"
  "matrix_from_columns A J \<noteq> Inl Inconsistent"
  "row_matrix n v \<noteq> Inl Inconsistent"
  "column_matrix n v \<noteq> Inl Inconsistent"
  "mat_times A B \<noteq> Inl Inconsistent"
  "vector_of A \<noteq> Inl Inconsistent"
  "vec_sub u v \<noteq> Inl Inconsistent"
  "augment A B \<noteq> Inl Inconsistent"
  by (simp_all add: inverse_mat_def vec_times_mat_def matrix_from_columns_def row_matrix_def
      column_matrix_def mat_times_def vector_of_def vec_sub_def augment_def Let_def)

lemma dec_uG_not_Inconsistent: "dec_uG n sk ct \<noteq> Inl Inconsistent"
proof -
  obtain G M T Q G0 J where sk: "sk = (G, M, T, Q, G0, J)" by (cases sk) auto
  show ?thesis
    unfolding dec_uG_def sk prod.case by (intro bind_err_neq ops_not_Inconsistent)
qed

lemma dec_Gconc_not_Inconsistent: "dec_Gconc n sk uG \<noteq> Inl Inconsistent"
proof -
  obtain G M T Q G0 J where sk: "sk = (G, M, T, Q, G0, J)" by (cases sk) auto
  show ?thesis
    unfolding dec_Gconc_def sk prod.case by (intro bind_err_neq ops_not_Inconsistent)
qed

text \<open>
  C4 (as the code has it): decryption has no \<open>Inconsistent\<close> outcome.  On every secret key
  and ciphertext, whether or not the final linear system has a solution, it fails only
  where one of its matrix operations fails, and otherwise returns the first \<open>k\<close> entries of
  the last column of the reduced row echelon form of the matrix of the system.
\<close>

theorem dec_never_Inconsistent:
  "dec n k sk ct \<noteq> Inl Inconsistent
   \<and> (case dec_uG n sk ct of
        Inl e \<Rightarrow> dec n k sk ct = Inl e
      | Inr uG \<Rightarrow>
          (case dec_Gconc n sk uG of
             Inl e \<Rightarrow> dec n k sk ct = Inl e
           | Inr Gconc \<Rightarrow> dec n k sk ct = Inr (map last (take k (rows (rref Gconc))))))"
proof
  show "dec n k sk ct \<noteq> Inl Inconsistent"
    unfolding dec_def
    by (intro bind_err_neq dec_uG_not_Inconsistent dec_Gconc_not_Inconsistent) simp
  show "case dec_uG n sk ct of
        Inl e \<Rightarrow> dec n k sk ct = Inl e
      | Inr uG \<Rightarrow>
          (case dec_Gconc n sk uG of
             Inl e \<Rightarrow> dec n k sk ct = Inl e
           | Inr Gconc \<Rightarrow> dec n k sk ct = Inr (map last (take k (rows (rref Gconc)))))"
    by (simp add: dec_def bind_err_def split: sum.splits)
qed

text \<open>
  Counterexample to C4 as stated, for \<open>n = 2\<close> and \<open>k = 1\<close>: for the secret key with
  \<open>G = (1 0)\<close>, \<open>M = T = 1\<close>, \<open>G0\<close> with rows \<open>(0 0)\<close> and \<open>(0 1)\<close>, \<open>J = [0]\<close> and the
  ciphertext \<open>(0, 1)\<close>, decryption reaches the system for \<open>uG = (0, 1)\<close>, which has no
  solution, and returns the plaintext \<open>(0)\<close>.
\<close>

theorem dec_inconsistent_returns:
  "dec_uG 2 (Matrix 1 2 [[1, 0]], Matrix 2 2 [[1, 0], [0, 1]], Matrix 2 2 [[1, 0], [0, 1]],
             Matrix 2 2 [[0, 0], [0, 0]], Matrix 2 2 [[0, 0], [0, 1]], [0]) [0, 1 :: gf2]
     = Inr [0, 1]
   \<and> \<not> consistent (Matrix 1 2 [[1, 0]]) [0, 1 :: gf2]
   \<and> dec 2 1 (Matrix 1 2 [[1, 0]], Matrix 2 2 [[1, 0], [0, 1]], Matrix 2 2 [[1, 0], [0, 1]],
               Matrix 2 2 [[0, 0], [0, 0]], Matrix 2 2 [[0, 0], [0, 1]], [0]) [0, 1 :: gf2]
     = Inr [0]"
proof (intro conjI)
  show "dec_uG 2 (Matrix 1 2 [[1, 0]], Matrix 2 2 [[1, 0], [0, 1]], Matrix 2 2 [[1, 0], [0, 1]],
             Matrix 2 2 [[0, 0], [0, 0]], Matrix 2 2 [[0, 0], [0, 1]], [0]) [0, 1 :: gf2]
     = Inr [0, 1]"
    by code_simp
  show "dec 2 1 (Matrix 1 2 [[1, 0]], Matrix 2 2 [[1, 0], [0, 1]], Matrix 2 2 [[1, 0], [0, 1]],
               Matrix 2 2 [[0, 0], [0, 0]], Matrix 2 2 [[0, 0], [0, 1]], [0]) [0, 1 :: gf2]
     = Inr [0]"
    by code_simp
  show "\<not> consistent (Matrix 1 2 [[1, 0]]) [0, 1 :: gf2]"
  proof
    assume "consistent (Matrix 1 2 [[1, 0]]) [0, 1 :: gf2]"
    then obtain u :: "gf2 list" where u: "length u = 1" "vecmat 2 u [[1, 0]] = [0, 1]"
      unfolding consistent_def by auto
    then obtain a where "u = [a]" by (cases u) auto
    then show False using u(2) by simp
  qed
qed

section \<open>The matrices of a generated key\<close>

lemma wf_random_mat:
  "random_mat k n rs = (G, rs1) \<Longrightarrow> wf_matrix G \<and> nrows G = k \<and> ncols G = n"
  by (auto simp: random_mat_def wf_matrix_iff)

lemma random_nonsingular_matrix_props:
  assumes "random_nonsingular_matrix k n rs = Some (G, rs1)"
  shows "wf_matrix G \<and> nrows G = k \<and> ncols G = n \<and> rank G = min k n"
proof -
  have "wf_matrix (fst y) \<and> nrows (fst y) = k \<and> ncols (fst y) = n \<and> rank (fst y) = min k n"
    if "random_nonsingular_matrix k n rs = Some y" for y
  proof (rule random_nonsingular_matrix.raw_induct
      [where P = "\<lambda>k n rs y. wf_matrix (fst y) \<and> nrows (fst y) = k \<and> ncols (fst y) = n
                     \<and> rank (fst y) = min k n", OF _ that])
    fix f :: "nat \<Rightarrow> nat \<Rightarrow> 'a rand \<Rightarrow> ('a matrix \<times> 'a rand) option"
    fix k n rs y
    assume IH: "\<And>k n rs y. f k n rs = Some y \<Longrightarrow>
        wf_matrix (fst y) \<and> nrows (fst y) = k \<and> ncols (fst y) = n \<and> rank (fst y) = min k n"
      and step: "(case random_mat k n rs of
         (G, rs1) \<Rightarrow> if rank G = min k n then Some (G, rs1) else f k n rs1) = Some y"
    obtain G rs1 where G: "random_mat k n rs = (G, rs1)" by (cases "random_mat k n rs")
    show "wf_matrix (fst y) \<and> nrows (fst y) = k \<and> ncols (fst y) = n \<and> rank (fst y) = min k n"
    proof (cases "rank G = min k n")
      case True
      then show ?thesis using step G wf_random_mat [OF G] by auto
    next
      case False
      then have "f k n rs1 = Some y" using step G by simp
      then show ?thesis by (rule IH)
    qed
  qed
  from this [OF assms] show ?thesis by simp
qed

lemma random_codewords_props:
  "random_codewords m G rs = (cs, rs2) \<Longrightarrow>
   \<exists>V. cs = map (\<lambda>v. vecmat (ncols G) v (rows G)) V \<and> length V = m
     \<and> (\<forall>v\<in>set V. length v = nrows G)"
proof (induction m arbitrary: rs cs rs2)
  case 0
  then show ?case by simp
next
  case (Suc m)
  obtain c rs1 where c: "random_code G rs = (c, rs1)" by (cases "random_code G rs")
  obtain cs' rs3 where cs': "random_codewords m G rs1 = (cs', rs3)"
    by (cases "random_codewords m G rs1")
  obtain V where V: "cs' = map (\<lambda>v. vecmat (ncols G) v (rows G)) V" "length V = m"
      "\<forall>v\<in>set V. length v = nrows G"
    using Suc.IH [OF cs'] by blast
  have cs: "cs = c # cs'" using Suc.prems c cs' by simp
  obtain v where v: "c = vecmat (ncols G) v (rows G)" "length v = nrows G"
    using c by (auto simp: random_code_def random_vector_def)
  show ?case
    by (rule exI [of _ "v # V"]) (simp add: cs v V)
qed

lemma key_genE:
  assumes "key_gen n k rs = Some (Inr (((G1, G2), (G, M, T, Q, G0, J)), rs'))"
  obtains rs1 G0rows rs2 rs3 TJ L rs4 G0T QG0T where
    "random_nonsingular_matrix k n rs = Some (G, rs1)"
    and "random_codewords n G rs1 = (G0rows, rs2)" and "G0 = Matrix n n G0rows"
    and "J = pivots G"
    and "random_nonsingular_matrix n n rs2 = Some (T, rs3)"
    and "matrix_from_columns T J = Inr TJ" and "k \<le> n"
    and "random_nonsingular_matrix n (n - k) rs3 = Some (L, rs4)"
    and "mat_times L (right_kernel_matrix (transpose_mat TJ)) = Inr Q"
    and "random_nonsingular_matrix n n rs4 = Some (M, rs')"
    and "mat_times G M = Inr G1" and "mat_add G0 T = Inr G0T"
    and "mat_times Q G0T = Inr QG0T" and "mat_times QG0T M = Inr G2"
proof -
  note kg = assms [unfolded key_gen_def]
  obtain G' rs1 where a: "random_nonsingular_matrix k n rs = Some (G', rs1)"
    using kg by (cases "random_nonsingular_matrix k n rs") auto
  obtain G0rows rs2 where b: "random_codewords n G' rs1 = (G0rows, rs2)"
    by (cases "random_codewords n G' rs1")
  obtain T' rs3 where c: "random_nonsingular_matrix n n rs2 = Some (T', rs3)"
    using kg a b by (cases "random_nonsingular_matrix n n rs2") (auto simp: Let_def)
  obtain TJ where d: "matrix_from_columns T' (pivots G') = Inr TJ"
    using kg a b c by (cases "matrix_from_columns T' (pivots G')") (auto simp: Let_def)
  have e: "k \<le> n"
    using kg a b c d by (cases "n < k") (auto simp: Let_def)
  obtain L rs4 where f: "random_nonsingular_matrix n (n - k) rs3 = Some (L, rs4)"
    using kg a b c d e
    by (cases "random_nonsingular_matrix n (n - k) rs3") (auto simp: Let_def)
  obtain Q' where g: "mat_times L (right_kernel_matrix (transpose_mat TJ)) = Inr Q'"
    using kg a b c d e f
    by (cases "mat_times L (right_kernel_matrix (transpose_mat TJ))") (auto simp: Let_def)
  obtain M' rs5 where h: "random_nonsingular_matrix n n rs4 = Some (M', rs5)"
    using kg a b c d e f g
    by (cases "random_nonsingular_matrix n n rs4") (auto simp: Let_def)
  have r: "bind_err (mat_times G' M') (\<lambda>G1.
           bind_err (mat_add (Matrix n n G0rows) T') (\<lambda>G0T.
           bind_err (mat_times Q' G0T) (\<lambda>QG0T.
           bind_err (mat_times QG0T M') (\<lambda>G2.
           Inr (((G1, G2), (G', M', T', Q', Matrix n n G0rows, pivots G')), rs5)))))
         = Inr (((G1, G2), (G, M, T, Q, G0, J)), rs')"
    using kg a b c d e f g h by (simp add: Let_def)
  obtain G1' where i: "mat_times G' M' = Inr G1'"
    using r by (cases "mat_times G' M'") (auto simp: bind_err_def)
  obtain G0T where j: "mat_add (Matrix n n G0rows) T' = Inr G0T"
    using r i by (cases "mat_add (Matrix n n G0rows) T'") (auto simp: bind_err_def)
  obtain QG0T where l: "mat_times Q' G0T = Inr QG0T"
    using r i j by (cases "mat_times Q' G0T") (auto simp: bind_err_def)
  obtain G2' where m: "mat_times QG0T M' = Inr G2'"
    using r i j l by (cases "mat_times QG0T M'") (auto simp: bind_err_def)
  note r' = r [unfolded bind_err_def i j l m sum.case]
  from r' have eq: "G1' = G1" "G2' = G2" "G' = G" "M' = M" "T' = T" "Q' = Q" "rs5 = rs'"
    and eq7: "G0 = Matrix n n G0rows" and eq8: "J = pivots G"
    by auto
  show thesis
    by (rule that [OF a [unfolded eq] b [unfolded eq] eq7 eq8 c [unfolded eq]
          d [unfolded eq eq8 [symmetric]] e f [unfolded eq]
          g [unfolded eq] h [unfolded eq] i [unfolded eq]
          j [unfolded eq eq7 [symmetric]] l [unfolded eq] m [unfolded eq]])
qed

lemma wf_matrix_from_columns:
  "wf_matrix A \<Longrightarrow> matrix_from_columns A J = Inr B \<Longrightarrow>
   wf_matrix B \<and> nrows B = nrows A \<and> ncols B = length J \<and> rows B = map (select J) (rows A)
   \<and> (\<forall>j\<in>set J. j < ncols A)"
  by (auto simp: matrix_from_columns_def wf_matrix_iff list_all_iff split: if_splits)

lemma wf_mat_add:
  "wf_matrix A \<Longrightarrow> wf_matrix B \<Longrightarrow> mat_add A B = Inr C \<Longrightarrow>
   wf_matrix C \<and> nrows C = nrows A \<and> ncols C = ncols A \<and> rows C = map2 vadd (rows A) (rows B)
   \<and> nrows B = nrows A \<and> ncols B = ncols A"
  by (auto simp: mat_add_def wf_matrix_iff split: if_splits dest!: set_zip_leftD set_zip_rightD
      simp: set_zip)

lemma rank_mult_le_inner:
  assumes "wf_matrix A" "wf_matrix B" "mat_times A B = Inr C"
  shows "rank C \<le> ncols A"
  using rank_mult_le_right [OF assms] rank_le_nrows [OF assms(2)]
    wf_mat_times [OF assms(2) wf_matrix_length [OF assms(1)] assms(3)] by simp

text \<open>The shape of the matrices of a generated key.\<close>

lemma key_gen_wf:
  assumes "key_gen n k rs = Some (Inr (((G1, G2), (G, M, T, Q, G0, J)), rs'))"
  shows "wf_matrix G \<and> nrows G = k \<and> ncols G = n \<and> rank G = k \<and> k \<le> n"
    and "wf_matrix M \<and> nrows M = n \<and> ncols M = n \<and> rank M = n"
    and "wf_matrix T \<and> nrows T = n \<and> ncols T = n \<and> rank T = n"
    and "wf_matrix G0 \<and> nrows G0 = n \<and> ncols G0 = n"
    and "wf_matrix Q \<and> nrows Q = n \<and> ncols Q = n"
    and "wf_matrix G1 \<and> nrows G1 = k \<and> ncols G1 = n"
    and "wf_matrix G2 \<and> nrows G2 = n \<and> ncols G2 = n"
proof -
  from key_genE [OF assms] obtain rs1 G0rows rs2 rs3 TJ L rs4 G0T QG0T where
    kg: "random_nonsingular_matrix k n rs = Some (G, rs1)"
    "random_codewords n G rs1 = (G0rows, rs2)" "G0 = Matrix n n G0rows"
    "J = pivots G"
    "random_nonsingular_matrix n n rs2 = Some (T, rs3)"
    "matrix_from_columns T J = Inr TJ" "k \<le> n"
    "random_nonsingular_matrix n (n - k) rs3 = Some (L, rs4)"
    "mat_times L (right_kernel_matrix (transpose_mat TJ)) = Inr Q"
    "random_nonsingular_matrix n n rs4 = Some (M, rs')"
    "mat_times G M = Inr G1" "mat_add G0 T = Inr G0T"
    "mat_times Q G0T = Inr QG0T" "mat_times QG0T M = Inr G2"
    by blast
  note G = random_nonsingular_matrix_props [OF kg(1)]
  note T = random_nonsingular_matrix_props [OF kg(5)]
  note L = random_nonsingular_matrix_props [OF kg(8)]
  note M = random_nonsingular_matrix_props [OF kg(10)]
  show 1: "wf_matrix G \<and> nrows G = k \<and> ncols G = n \<and> rank G = k \<and> k \<le> n"
    using G kg(7) by simp
  show 2: "wf_matrix M \<and> nrows M = n \<and> ncols M = n \<and> rank M = n" using M by simp
  show 3: "wf_matrix T \<and> nrows T = n \<and> ncols T = n \<and> rank T = n" using T by simp
  obtain V where V: "G0rows = map (\<lambda>v. vecmat (ncols G) v (rows G)) V" "length V = n"
    using random_codewords_props [OF kg(2)] by blast
  show 4: "wf_matrix G0 \<and> nrows G0 = n \<and> ncols G0 = n"
    using V G wf_matrix_rows [of G] by (simp add: kg(3) wf_matrix_iff)
  note TJ = wf_matrix_from_columns [OF conjunct1 [OF T] kg(6)]
  have HJ: "wf_matrix (right_kernel_matrix (transpose_mat TJ))"
    by (intro right_kernel_props(1) wf_transpose) (use TJ in simp)
  note Q = wf_mat_times [OF HJ wf_matrix_length [OF conjunct1 [OF L]] kg(9)]
  show 5: "wf_matrix Q \<and> nrows Q = n \<and> ncols Q = n" using Q L TJ T by simp
  note G1 = wf_mat_times [OF conjunct1 [OF M] wf_matrix_length [OF conjunct1 [OF G]] kg(11)]
  show "wf_matrix G1 \<and> nrows G1 = k \<and> ncols G1 = n" using G1 G M by simp
  note G0T = wf_mat_add [OF conjunct1 [OF 4] conjunct1 [OF T] kg(12)]
  note QG0T = wf_mat_times [OF conjunct1 [OF G0T] wf_matrix_length [OF conjunct1 [OF 5]] kg(13)]
  note G2 = wf_mat_times [OF conjunct1 [OF M] wf_matrix_length [OF conjunct1 [OF QG0T]] kg(14)]
  show "wf_matrix G2 \<and> nrows G2 = n \<and> ncols G2 = n" using G2 QG0T 5 M by simp
qed

lemma key_gen_rank_Q:
  assumes "key_gen n k rs = Some (Inr (((G1, G2), (G, M, T, Q, G0, J)), rs'))"
  shows "rank Q \<le> n - k"
proof -
  from key_genE [OF assms] obtain rs2 rs3 TJ L rs4 where
    kg: "random_nonsingular_matrix n n rs2 = Some (T, rs3)"
    "matrix_from_columns T J = Inr TJ"
    "random_nonsingular_matrix n (n - k) rs3 = Some (L, rs4)"
    "mat_times L (right_kernel_matrix (transpose_mat TJ)) = Inr Q"
    by metis
  note T = random_nonsingular_matrix_props [OF kg(1)]
  note L = random_nonsingular_matrix_props [OF kg(3)]
  note TJ = wf_matrix_from_columns [OF conjunct1 [OF T] kg(2)]
  have HJ: "wf_matrix (right_kernel_matrix (transpose_mat TJ))"
    by (intro right_kernel_props(1) wf_transpose) (use TJ in simp)
  show ?thesis using rank_mult_le_inner [OF conjunct1 [OF L] HJ kg(4)] L by simp
qed

lemma key_gen_rank_G2:
  assumes "key_gen n k rs = Some (Inr (((G1, G2), (G, M, T, Q, G0, J)), rs'))"
  shows "rank G2 \<le> rank Q"
proof -
  from key_genE [OF assms] obtain G0T QG0T where
    kg: "mat_add G0 T = Inr G0T"
    "mat_times Q G0T = Inr QG0T" "mat_times QG0T M = Inr G2"
    by metis
  note wf = key_gen_wf [OF assms]
  note G0T = wf_mat_add [OF conjunct1 [OF wf(4)] conjunct1 [OF wf(3)] kg(1)]
  note QG0T = wf_mat_times [OF conjunct1 [OF G0T] wf_matrix_length [OF conjunct1 [OF wf(5)]] kg(2)]
  have "rank QG0T \<le> rank Q"
    by (rule rank_mult_le_left [OF conjunct1 [OF wf(5)] conjunct1 [OF G0T] kg(2)])
  moreover have "rank G2 \<le> rank QG0T"
    by (rule rank_mult_le_left [OF conjunct1 [OF QG0T] conjunct1 [OF wf(2)] kg(3)])
  ultimately show ?thesis by simp
qed

text \<open>
  C7: attack structural rank bound.  For every key pair returned by \<open>key_gen(n, k)\<close>, the
  matrix \<open>Q = L * HJ\<close> has rank at most \<open>n - k\<close>, and consequently the public matrix
  \<open>G2 = Q * (G0 + T) * M\<close> has rank at most \<open>n - k\<close>.
\<close>

theorem key_gen_rank_bound:
  assumes "key_gen n k rs = Some (Inr (((G1, G2), (G, M, T, Q, G0, J)), rs'))"
  shows "rank Q \<le> n - k \<and> rank G2 \<le> n - k"
  using key_gen_rank_Q [OF assms] key_gen_rank_G2 [OF assms] by simp

theorem key_gen_rank_bound_witness:
  "\<exists>rs'. key_gen 2 1 (tape [0, 0, 1, 0, 0, 0, 1, 0, 0, 1, 1, 1, 1, 0, 0, 1 :: gf2])
     = Some (Inr (((Matrix 1 2 [[1, 0]], Matrix 2 2 [[0, 1], [0, 1]]),
        (Matrix 1 2 [[1, 0]], Matrix 2 2 [[1, 0], [0, 1]], Matrix 2 2 [[1, 0], [0, 1]],
         Matrix 2 2 [[0, 1], [0, 1]], Matrix 2 2 [[0, 0], [0, 0]], [0])), rs'))
     \<and> rank (Matrix 2 2 [[0, 1], [0, 1 :: gf2]]) \<le> 2 - 1"
proof -
  have "map_option (map_sum id fst)
      (key_gen 2 1 (tape [0, 0, 1, 0, 0, 0, 1, 0, 0, 1, 1, 1, 1, 0, 0, 1 :: gf2]))
    = Some (Inr ((Matrix 1 2 [[1, 0]], Matrix 2 2 [[0, 1], [0, 1]]),
        (Matrix 1 2 [[1, 0]], Matrix 2 2 [[1, 0], [0, 1]], Matrix 2 2 [[1, 0], [0, 1]],
         Matrix 2 2 [[0, 1], [0, 1]], Matrix 2 2 [[0, 0], [0, 0]], [0])))"
    by code_simp
  then obtain rs' where kg:
    "key_gen 2 1 (tape [0, 0, 1, 0, 0, 0, 1, 0, 0, 1, 1, 1, 1, 0, 0, 1 :: gf2])
     = Some (Inr (((Matrix 1 2 [[1, 0]], Matrix 2 2 [[0, 1], [0, 1]]),
        (Matrix 1 2 [[1, 0]], Matrix 2 2 [[1, 0], [0, 1]], Matrix 2 2 [[1, 0], [0, 1]],
         Matrix 2 2 [[0, 1], [0, 1]], Matrix 2 2 [[0, 0], [0, 0]], [0])), rs'))"
    by (cases "key_gen 2 1 (tape [0, 0, 1, 0, 0, 0, 1, 0, 0, 1, 1, 1, 1, 0, 0, 1 :: gf2])")
       (auto simp: map_sum_def split: sum.splits)
  from key_gen_rank_bound [OF kg] kg show ?thesis by blast
qed

section \<open>Solving a linear system with a unique solution by row reduction\<close>

lemma dot_append:
  "length a = length b \<Longrightarrow> dot (a @ c) (b @ d) = dot a b + dot c d"
  by (induction a b rule: list_induct2) (simp_all add: add.assoc)

lemma map_dot_identity:
  "length u = k \<Longrightarrow> map (\<lambda>r. dot r u) (identity_rows k) = u"
proof (induction k arbitrary: u)
  case 0
  then show ?case by simp
next
  case (Suc k)
  then obtain x u' where u: "u = x # u'" "length u' = k" by (cases u) auto
  have "map (\<lambda>r. dot r (x # u')) (map ((#) 0) (identity_rows k))
        = map (\<lambda>r. dot r u') (identity_rows k)"
    by (simp add: o_def)
  then show ?case using Suc.IH [OF u(2)] unfolding u(1) by simp
qed

lemma vecmat_zero_rows: "vecmat k h (replicate m (zerov k)) = zerov k"
proof (induction m arbitrary: h)
  case 0
  then show ?case by simp
next
  case (Suc m)
  then show ?case by (cases h) simp_all
qed

text \<open>A reduced matrix with \<open>k\<close> columns whose kernel is trivial starts with the identity.\<close>

lemma rref_trivial_kernel:
  assumes E: "is_rref k E"
    and ker: "\<And>y. length y = k \<Longrightarrow> \<forall>r\<in>set E. dot r y = 0 \<Longrightarrow> y = zerov k"
  shows "take k E = identity_rows k"
proof -
  have "length (pivot_cols E) = k"
  proof (rule ccontr)
    assume "length (pivot_cols E) \<noteq> k"
    then have "0 < length (kernel_rows k E)"
      using is_rref_pivots_le [OF E] length_kernel_rows [OF E] by simp
    then obtain y where y: "y \<in> set (kernel_rows k E)" by (cases "kernel_rows k E") auto
    have "y = zerov k"
      by (rule ker) (use y kernel_rows_ok [OF E] kernel_rows_dot [OF E] in auto)
    then show False using y kernel_rows_nonzero [OF E] by blast
  qed
  then show ?thesis by (rule is_rref_full_pivots [OF E])
qed

text \<open>
  The system with matrix rows \<open>A\<close> and right-hand side \<open>A * u\<close>, where only the zero
  vector is mapped to zero by \<open>A\<close>: the first \<open>k\<close> entries of the last column of the
  reduced augmented matrix are \<open>u\<close>.
\<close>

lemma solve_unique:
  assumes okA: "\<forall>r\<in>set A. length r = k" and lu: "length u = k"
    and ker: "\<And>y. length y = k \<Longrightarrow> \<forall>a\<in>set A. dot a y = 0 \<Longrightarrow> y = zerov k"
  shows "map last (take k (rref_rows (Suc k) (map2 (@) A (map (\<lambda>x. [x]) (map (\<lambda>a. dot a u) A)))))
         = u"
proof -
  define B where "B = map (\<lambda>x. [x]) (map (\<lambda>a. dot a u) A)"
  define X where "X = map2 (@) A B"
  define E where "E = rref_rows (Suc k) X"
  define z where "z = u @ [- 1]"
  have lB: "length A = length B" unfolding B_def by simp
  have okB: "\<forall>r\<in>set B. length r = 1" unfolding B_def by auto
  have okX: "\<forall>r\<in>set X. length r = k + 1"
    unfolding X_def by (rule map2_append_ok [OF lB okA okB])
  then have okX': "\<forall>r\<in>set X. length r = Suc k" by simp
  have E: "is_rref (Suc k) E" unfolding E_def by (rule is_rref_rref_rows [OF okX'])
  have okE: "\<forall>r\<in>set E. length r = Suc k" by (rule is_rref_rows_ok [OF E])
  have okE1: "\<forall>r\<in>set E. length r = k + 1" using okE by simp
  have tX: "map (take k) X = A" unfolding X_def by (rule map_take_append [OF lB okA])
  have Xz: "\<forall>x\<in>set X. dot x z = 0"
  proof
    fix x assume "x \<in> set X"
    then obtain a where a: "a \<in> set A" "x = a @ [dot a u]"
      unfolding X_def B_def by (auto simp: zip_map2 zip_same_conv_map set_zip in_set_conv_nth)
    have "length a = length u" using a(1) okA lu by simp
    then show "dot x z = 0" unfolding a(2) z_def by (simp add: dot_append)
  qed
  have Ez: "\<forall>e\<in>set E. dot e z = 0"
    using dot_rowspace [OF okX' Xz] rref_rows_in_rowspace [OF okX'] unfolding E_def by blast
  have L: "is_rref k (map (take k) E)"
    using is_rref_take [of k 1 E] E by simp
  have AL: "\<forall>a\<in>set A. in_rowspace k (map (take k) E) a"
  proof
    fix a assume "a \<in> set A"
    then obtain x where x: "x \<in> set X" "a = take k x" unfolding tX [symmetric] by auto
    have "in_rowspace (k + 1) E x"
      using rows_in_rowspace_rref [OF okX' x(1)] unfolding E_def by simp
    then show "in_rowspace k (map (take k) E) a"
      unfolding x(2) by (rule in_rowspace_take [OF okE1])
  qed
  have I: "take k (map (take k) E) = identity_rows k"
  proof (rule rref_trivial_kernel [OF L])
    fix y :: "'a list" assume y: "length y = k" "\<forall>r\<in>set (map (take k) E). dot r y = 0"
    have "\<forall>a\<in>set A. dot a y = 0"
      using dot_rowspace [OF is_rref_rows_ok [OF L] y(2)] AL by blast
    then show "y = zerov k" by (rule ker [OF y(1)])
  qed
  have last: "last e = dot (take k e) u" if "e \<in> set E" for e
  proof -
    have le: "length e = Suc k" using okE that by blast
    then have e: "e = take k e @ [last e]"
      by (metis append_butlast_last_id butlast_conv_take diff_Suc_1 length_0_conv nat.simps(3))
    have "dot (take k e @ [last e]) (u @ [- 1]) = dot (take k e) u + dot [last e] [- 1]"
      by (rule dot_append) (simp add: le lu)
    then have "dot e z = dot (take k e) u - last e" unfolding z_def e [symmetric] by simp
    then show ?thesis using Ez that by simp
  qed
  have "map last (take k E) = map (\<lambda>e. dot (take k e) u) (take k E)"
    using last by (intro map_cong) (auto dest: in_set_takeD)
  also have "\<dots> = map (\<lambda>r. dot r u) (take k (map (take k) E))"
    by (simp add: take_map o_def)
  also have "\<dots> = u" unfolding I by (rule map_dot_identity [OF lu])
  finally show ?thesis unfolding E_def X_def B_def .
qed

section \<open>Further vector algebra\<close>

lemma vecmat_map2_vadd:
  "length A = length B \<Longrightarrow> \<forall>r\<in>set A. length r = n \<Longrightarrow> \<forall>r\<in>set B. length r = n \<Longrightarrow>
   vecmat n c (map2 vadd A B) = vadd (vecmat n c A) (vecmat n c B)"
proof (induction A B arbitrary: c rule: list_induct2)
  case Nil
  then show ?case by simp
next
  case (Cons a A b B)
  show ?case
  proof (cases c)
    case Nil
    then show ?thesis by simp
  next
    case (Cons x c')
    have IH: "vecmat n c' (map2 vadd A B) = vadd (vecmat n c' A) (vecmat n c' B)"
      using Cons.IH Cons.prems by simp
    have "length (vecmat n c' A) = n" "length (vecmat n c' B) = n"
      using Cons.prems by simp_all
    then show ?thesis unfolding Cons using Cons.prems
      by (intro nth_equalityI) (simp_all add: IH algebra_simps)
  qed
qed

lemma select_vadd:
  "\<forall>j\<in>set J. j < length a \<and> j < length b \<Longrightarrow>
   select J (vadd a b) = vadd (select J a) (select J b)"
  by (induction J) (simp_all add: select_def)

lemma select_zerov: "\<forall>j\<in>set J. j < n \<Longrightarrow> select J (zerov n) = zerov (length J)"
  by (rule select_zero) simp

lemma vadd_cancel3:
  "length a = n \<Longrightarrow> length b = n \<Longrightarrow> length c = n \<Longrightarrow>
   vsub (vadd a (vadd b c)) (vadd a b) = c"
  by (rule nth_equalityI) simp_all

lemma vsub_cancel3:
  "length a = n \<Longrightarrow> length b = n \<Longrightarrow> length c = n \<Longrightarrow>
   vsub (vsub (vadd a (vadd b c)) b) c = a"
  by (rule nth_equalityI) simp_all

section \<open>Decryption of a well-formed ciphertext\<close>

lemma full_row_rank_indep:
  assumes "wf_matrix G" "rank G = nrows G"
  shows "lin_indep (ncols G) (rows G)"
  by (rule full_rank_indep [OF wf_matrix_rows [OF assms(1)]])
     (use assms in \<open>simp add: rank_pivot_cols wf_matrix_length\<close>)

lemma pivot_submatrix_inverse:
  assumes "wf_matrix G" "rank G = nrows G"
  shows "wf_matrix (Matrix (nrows G) (nrows G) (map (select (pivots G)) (rows G)))"
    and "\<exists>X. inverse_mat (Matrix (nrows G) (nrows G) (map (select (pivots G)) (rows G))) = Inr X"
proof -
  note p = pivots_full_rank [OF assms]
  show wf: "wf_matrix (Matrix (nrows G) (nrows G) (map (select (pivots G)) (rows G)))"
    by (simp add: wf_matrix_iff wf_matrix_length [OF assms(1)] p(1))
  show "\<exists>X. inverse_mat (Matrix (nrows G) (nrows G) (map (select (pivots G)) (rows G))) = Inr X"
    by (rule inverse_mat_exists [OF wf]) (use p(3) in simp_all)
qed

text \<open>Multiplying by a matrix and then by its inverse.\<close>

lemma vecmat_inverse_cancel:
  assumes A: "wf_matrix A" and X: "inverse_mat A = Inr X" and lw: "length w = nrows A"
  shows "vecmat (nrows A) (vecmat (nrows A) w (rows A)) (rows X) = w"
proof -
  let ?n = "nrows A"
  note c = inverse_mat_correct [OF A X]
  have okX: "\<forall>r\<in>set (rows X). length r = ?n" using c wf_matrix_rows [of X] by simp
  have lX: "length (rows X) = ?n" using c wf_matrix_length [of X] by simp
  have okA: "\<forall>b\<in>set (rows A). length b = length (rows X)"
    using wf_matrix_rows [OF A] c lX by simp
  have "vecmat ?n (vecmat (length (rows X)) w (rows A)) (rows X)
        = vecmat ?n w (map (\<lambda>b. vecmat ?n b (rows X)) (rows A))"
    by (rule vecmat_assoc [OF okX okA]) (simp add: lw wf_matrix_length [OF A])
  then show ?thesis using c lw unfolding lX by simp
qed

text \<open>
  The vector \<open>uG\<close> that decryption computes: if \<open>ct\<close> times the inverse of \<open>M\<close> is the sum of \<open>u * G\<close>, of
  \<open>x * G0\<close>, a codeword \<open>g * G\<close>, and of \<open>x * T\<close>, which vanishes in the pivot columns, then
  the elimination steps of \<open>dec\<close> leave \<open>u * G\<close>.
\<close>

lemma dec_uG_value:
  fixes G M T Q G0 :: "'a::field matrix"
  assumes G: "wf_matrix G" "nrows G = k" "ncols G = n" "rank G = k"
    and M: "wf_matrix M" "nrows M = n" "ncols M = n" "rank M = n"
    and T: "wf_matrix T" "nrows T = n" "ncols T = n" "rank T = n"
    and G0: "wf_matrix G0" "nrows G0 = n" "ncols G0 = n"
    and lu: "length u = k" and lx: "length x = n" and lg: "length g = k"
    and xG0: "vecmat n x (rows G0) = vecmat n g (rows G)"
    and xT: "select (pivots G) (vecmat n x (rows T)) = zerov k"
    and ct: "ct = vecmat n (vadd (vecmat n u (rows G))
                 (vadd (vecmat n x (rows G0)) (vecmat n x (rows T)))) (rows M)"
  shows "dec_uG n (G, M, T, Q, G0, pivots G) ct = Inr (vecmat n u (rows G))"
proof -
  let ?J = "pivots G"
  define uG where "uG = vecmat n u (rows G)"
  define a where "a = vecmat n x (rows G0)"
  define b where "b = vecmat n x (rows T)"
  define w where "w = vadd uG (vadd a b)"
  define GJ where "GJ = Matrix k k (map (select ?J) (rows G))"
  have okG: "\<forall>r\<in>set (rows G). length r = n" using wf_matrix_rows [OF G(1)] G(3) by simp
  have okM: "\<forall>r\<in>set (rows M). length r = n" using wf_matrix_rows [OF M(1)] M(3) by simp
  have okT: "\<forall>r\<in>set (rows T). length r = n" using wf_matrix_rows [OF T(1)] T(3) by simp
  have okG0: "\<forall>r\<in>set (rows G0). length r = n" using wf_matrix_rows [OF G0(1)] G0(3) by simp
  have lG: "length (rows G) = k" using wf_matrix_length [OF G(1)] G(2) by simp
  have len: "length uG = n" "length a = n" "length b = n" "length w = n"
    using okG okG0 okT by (simp_all add: uG_def a_def b_def w_def)
  have ctw: "ct = vecmat n w (rows M)" unfolding ct w_def uG_def a_def b_def ..
  have lct: "length ct = n" unfolding ctw using okM by simp
  \<comment> \<open>\<open>y = ct * M.inverse()\<close>\<close>
  obtain Minv where Minv: "inverse_mat M = Inr Minv"
    using inverse_mat_full_rank [OF M(1)] M by auto
  note mi = inverse_mat_correct [OF M(1) Minv]
  have y: "vec_times_mat ct Minv = Inr w"
    using vecmat_inverse_cancel [OF M(1) Minv, of w] mi M len lct
    by (simp add: vec_times_mat_def ctw)
  \<comment> \<open>\<open>GJ\<close>, \<open>ymat\<close>, \<open>yJ\<close>\<close>
  note p = pivots_full_rank [OF G(1)]
  have lJ: "length ?J = k" and Jn: "\<forall>j\<in>set ?J. j < n" using p G by simp_all
  have mfc: "matrix_from_columns G ?J = Inr GJ"
    using matrix_from_columns_pivots [OF G(1)] G unfolding GJ_def by simp
  have ymat: "row_matrix n w = Inr (Matrix 1 n [w])" using len by (simp add: row_matrix_def)
  have yJ: "matrix_from_columns (Matrix 1 n [w]) ?J = Inr (Matrix 1 k [select ?J w])"
    using Jn lJ by (simp add: matrix_from_columns_def list_all_iff)
  have wfGJ: "wf_matrix GJ" using pivot_submatrix_inverse(1) [OF G(1)] G unfolding GJ_def by simp
  obtain GJinv where GJinv: "inverse_mat GJ = Inr GJinv"
    using pivot_submatrix_inverse(2) [OF G(1)] G unfolding GJ_def by auto
  note gi = inverse_mat_correct [OF wfGJ GJinv]
  \<comment> \<open>the pivot columns of \<open>y\<close>\<close>
  define s where "s = vadd u g"
  have ls: "length s = k" using lu lg by (simp add: s_def)
  have okGJ: "\<forall>r\<in>set (map (select ?J) (rows G)). length r = k" using lJ by simp
  have 1: "select ?J uG = vecmat k u (map (select ?J) (rows G))"
    unfolding uG_def using select_vecmat [OF okG Jn, of u] lJ by simp
  have 2: "select ?J a = vecmat k g (map (select ?J) (rows G))"
    unfolding a_def xG0 using select_vecmat [OF okG Jn, of g] lJ by simp
  have 3: "select ?J b = zerov k" unfolding b_def by (rule xT)
  have "select ?J w = vadd (select ?J uG) (vadd (select ?J a) (select ?J b))"
    unfolding w_def using Jn len by (simp add: select_vadd)
  also have "\<dots> = vadd (vecmat k u (map (select ?J) (rows G))) (vecmat k g (map (select ?J) (rows G)))"
    unfolding 1 2 3 using okGJ by simp
  also have "\<dots> = vecmat k s (map (select ?J) (rows G))"
    unfolding s_def by (rule vecmat_vadd [OF okGJ, symmetric]) (simp_all add: lu lg lG)
  finally have sJ: "select ?J w = vecmat k s (rows GJ)" by (simp add: GJ_def)
  have "vecmat (nrows GJ) (vecmat (nrows GJ) s (rows GJ)) (rows GJinv) = s"
    by (rule vecmat_inverse_cancel [OF wfGJ GJinv]) (simp add: GJ_def ls)
  then have m1: "mat_times (Matrix 1 k [select ?J w]) GJinv = Inr (Matrix 1 k [s])"
    using gi by (simp add: mat_times_def sJ GJ_def)
  have m2: "mat_times (Matrix 1 k [s]) G = Inr (Matrix 1 n [vecmat n s (rows G)])"
    using G by (simp add: mat_times_def)
  have v: "vector_of (Matrix 1 n [vecmat n s (rows G)]) = Inr (vecmat n s (rows G))"
    by (simp add: vector_of_def)
  have wv: "vecmat n s (rows G) = vadd uG a"
    unfolding s_def uG_def a_def xG0 by (rule vecmat_vadd [OF okG]) (simp_all add: lu lg lG)
  have eQT: "vec_sub w (vecmat n s (rows G)) = Inr b"
    unfolding wv w_def using len by (simp add: vec_sub_def vadd_cancel3 [of _ n])
  \<comment> \<open>\<open>eQ = eQT * T.inverse()\<close>\<close>
  obtain Tinv where Tinv: "inverse_mat T = Inr Tinv"
    using inverse_mat_full_rank [OF T(1)] T by auto
  note ti = inverse_mat_correct [OF T(1) Tinv]
  have eQ: "vec_times_mat b Tinv = Inr x"
    using vecmat_inverse_cancel [OF T(1) Tinv, of x] ti T len lx
    by (simp add: vec_times_mat_def b_def)
  have eQG0: "vec_times_mat x G0 = Inr a" using G0 lx by (simp add: vec_times_mat_def a_def)
  have d: "vec_sub w a = Inr (vsub w a)" using len by (simp add: vec_sub_def)
  have r: "vec_sub (vsub w a) b = Inr uG"
    unfolding w_def using len by (simp add: vec_sub_def vsub_cancel3 [of _ n])
  show ?thesis
    unfolding dec_uG_def prod.case
    by (simp only: Minv y mfc ymat yJ GJinv m1 m2 v eQT Tinv eQ eQG0 d r bind_err_def sum.case
        uG_def [symmetric])
qed

text \<open>The last step of decryption for \<open>uG = u * G\<close>, where \<open>G\<close> has full row rank.\<close>

lemma dec_solve:
  fixes G :: "'a::field matrix"
  assumes G: "wf_matrix G" "nrows G = k" "ncols G = n" "rank G = k" and lu: "length u = k"
  shows "bind_err (dec_Gconc n (G, M, T, Q, G0, J) (vecmat n u (rows G)))
           (\<lambda>Gconc. Inr (map last (take k (rows (rref Gconc))))) = Inr u"
proof -
  let ?A = "columns n (rows G)"
  let ?uG = "vecmat n u (rows G)"
  have okG: "\<forall>r\<in>set (rows G). length r = n" using wf_matrix_rows [OF G(1)] G(3) by simp
  have lG: "length (rows G) = k" using wf_matrix_length [OF G(1)] G(2) by simp
  have okA: "\<forall>r\<in>set ?A. length r = k" using lG by (auto dest: columns_ok)
  have uG: "?uG = map (\<lambda>a. dot a u) ?A"
    unfolding vecmat_columns [OF okG] by (simp add: dot_commute [of u])
  have Gconc: "dec_Gconc n (G, M, T, Q, G0, J) ?uG
               = Inr (Matrix n (k + 1) (map2 (@) ?A (map (\<lambda>x. [x]) ?uG)))"
    using G okG by (simp add: dec_Gconc_def column_matrix_def augment_def bind_err_def)
  have ind: "lin_indep n (rows G)" using full_row_rank_indep [OF G(1)] G by simp
  have "map last (take k (rref_rows (Suc k) (map2 (@) ?A (map (\<lambda>x. [x]) (map (\<lambda>a. dot a u) ?A)))))
        = u"
  proof (rule solve_unique [OF okA lu])
    fix y :: "'a list" assume y: "length y = k" "\<forall>a\<in>set ?A. dot a y = 0"
    have "map (dot y) ?A = zerov n"
      using y(2) by (intro nth_equalityI) (simp_all add: dot_commute [of y])
    then have "vecmat n y (rows G) = zerov n" unfolding vecmat_columns [OF okG] .
    then show "y = zerov k" using ind y(1) lG unfolding lin_indep_def by auto
  qed
  then show ?thesis unfolding Gconc uG [symmetric] by (simp add: bind_err_def)
qed

section \<open>Round trip of encryption and decryption\<close>

lemma key_gen_G0_codeword:
  assumes kg: "key_gen n k rs = Some (Inr (((G1, G2), (G, M, T, Q, G0, J)), rs'))"
    and lx: "length x = n"
  shows "\<exists>g. length g = k \<and> vecmat n x (rows G0) = vecmat n g (rows G)"
proof -
  from key_genE [OF kg] obtain rs1 G0rows rs2 where
    c: "random_codewords n G rs1 = (G0rows, rs2)" "G0 = Matrix n n G0rows"
    by metis
  note wf = key_gen_wf(1) [OF kg]
  obtain V where V: "G0rows = map (\<lambda>v. vecmat (ncols G) v (rows G)) V" "length V = n"
      "\<forall>v\<in>set V. length v = nrows G"
    using random_codewords_props [OF c(1)] by blast
  have okG: "\<forall>r\<in>set (rows G). length r = n" using wf wf_matrix_rows [of G] by simp
  have lG: "length (rows G) = k" using wf wf_matrix_length [of G] by simp
  have okV: "\<forall>v\<in>set V. length v = length (rows G)" using V(3) wf lG by simp
  have "vecmat n (vecmat (length (rows G)) x V) (rows G)
        = vecmat n x (map (\<lambda>b. vecmat n b (rows G)) V)"
    by (rule vecmat_assoc [OF okG okV]) (simp add: lx V(2))
  moreover have "length (vecmat (length (rows G)) x V) = k" using okV lG by simp
  ultimately show ?thesis using V(1) wf c(2) lG by (intro exI [of _ "vecmat k x V"]) simp
qed

lemma key_gen_Q_kernel:
  assumes kg: "key_gen n k rs = Some (Inr (((G1, G2), (G, M, T, Q, G0, J)), rs'))"
    and le: "length e = n"
  shows "select J (vecmat n (vecmat n e (rows Q)) (rows T)) = zerov k"
proof -
  from key_genE [OF kg] obtain rs3 TJ L rs4 where
    c: "J = pivots G" "matrix_from_columns T J = Inr TJ"
    "random_nonsingular_matrix n (n - k) rs3 = Some (L, rs4)"
    "mat_times L (right_kernel_matrix (transpose_mat TJ)) = Inr Q"
    by metis
  let ?HJ = "right_kernel_matrix (transpose_mat TJ)"
  note wf = key_gen_wf [OF kg]
  note L = random_nonsingular_matrix_props [OF c(3)]
  have lJ: "length J = k" using pivots_full_rank(1) [of G] wf(1) c(1) by simp
  note TJ = wf_matrix_from_columns [OF conjunct1 [OF wf(3)] c(2)]
  have okT: "\<forall>r\<in>set (rows T). length r = n" using wf(3) wf_matrix_rows [of T] by simp
  have okTJ: "\<forall>r\<in>set (rows TJ). length r = k" using TJ wf_matrix_rows [of TJ] lJ by simp
  have lTJ: "length (rows TJ) = n" using TJ wf(3) wf_matrix_length [of TJ] by simp
  have Jn: "\<forall>j\<in>set J. j < n" using TJ wf(3) by simp
  have wfTt: "wf_matrix (transpose_mat TJ)" using TJ by (intro wf_transpose) simp
  note HJ = right_kernel_props [OF wfTt]
  have okHJ: "\<forall>r\<in>set (rows ?HJ). length r = n"
    using wf_matrix_rows [OF HJ(1)] TJ wf(3) by simp
  note Q = wf_mat_times [OF HJ(1) wf_matrix_length [OF conjunct1 [OF L]] c(4)]
  have okL: "\<forall>b\<in>set (rows L). length b = length (rows ?HJ)"
    using wf_matrix_rows [of L] L Q wf_matrix_length [OF HJ(1)] by simp
  define h where "h = vecmat (length (rows ?HJ)) e (rows L)"
  have lh: "length h = length (rows ?HJ)" unfolding h_def using okL by simp
  have "vecmat n (vecmat (length (rows ?HJ)) e (rows L)) (rows ?HJ)
        = vecmat n e (map (\<lambda>b. vecmat n b (rows ?HJ)) (rows L))"
    by (rule vecmat_assoc [OF okHJ okL]) (use L wf_matrix_length [of L] le in simp)
  then have eQ: "vecmat n e (rows Q) = vecmat n h (rows ?HJ)"
    using Q TJ wf(3) unfolding h_def by simp
  have zero: "vecmat k b (rows TJ) = zerov k" if "b \<in> set (rows ?HJ)" for b
  proof -
    have "\<forall>a\<in>set (columns k (rows TJ)). dot a b = 0"
      using HJ(3) that TJ lJ by simp
    then have "map (dot b) (columns k (rows TJ)) = zerov k"
      by (intro nth_equalityI) (simp_all add: dot_commute [of b])
    then show ?thesis unfolding vecmat_columns [OF okTJ] .
  qed
  have okHJ': "\<forall>b\<in>set (rows ?HJ). length b = length (rows TJ)" using okHJ lTJ by simp
  have "select J (vecmat n (vecmat n e (rows Q)) (rows T))
        = vecmat (length J) (vecmat n e (rows Q)) (map (select J) (rows T))"
    by (rule select_vecmat [OF okT Jn])
  also have "\<dots> = vecmat k (vecmat (length (rows TJ)) h (rows ?HJ)) (rows TJ)"
    using TJ lJ eQ lTJ by simp
  also have "\<dots> = vecmat k h (map (\<lambda>b. vecmat k b (rows TJ)) (rows ?HJ))"
    by (rule vecmat_assoc [OF okTJ okHJ' lh])
  also have "map (\<lambda>b. vecmat k b (rows TJ)) (rows ?HJ) = replicate (length (rows ?HJ)) (zerov k)"
    using zero by (intro replicate_eqI) auto
  finally show ?thesis by (simp add: vecmat_zero_rows)
qed

lemma key_gen_ciphertext:
  assumes kg: "key_gen n k rs = Some (Inr (((G1, G2), (G, M, T, Q, G0, J)), rs'))"
    and lu: "length u = k" and le: "length e = n"
  shows "vadd (vecmat n u (rows G1)) (vecmat n e (rows G2))
         = vecmat n (vadd (vecmat n u (rows G))
             (vadd (vecmat n (vecmat n e (rows Q)) (rows G0))
                   (vecmat n (vecmat n e (rows Q)) (rows T)))) (rows M)"
proof -
  from key_genE [OF kg] obtain G0T QG0T where
    c: "mat_times G M = Inr G1" "mat_add G0 T = Inr G0T"
    "mat_times Q G0T = Inr QG0T" "mat_times QG0T M = Inr G2"
    by metis
  note wf = key_gen_wf [OF kg]
  have okG: "\<forall>r\<in>set (rows G). length r = n" using wf(1) wf_matrix_rows [of G] by simp
  have okM: "\<forall>r\<in>set (rows M). length r = n" using wf(2) wf_matrix_rows [of M] by simp
  have okT: "\<forall>r\<in>set (rows T). length r = n" using wf(3) wf_matrix_rows [of T] by simp
  have okG0: "\<forall>r\<in>set (rows G0). length r = n" using wf(4) wf_matrix_rows [of G0] by simp
  have okQ: "\<forall>r\<in>set (rows Q). length r = n" using wf(5) wf_matrix_rows [of Q] by simp
  have len: "length (rows G) = k" "length (rows M) = n" "length (rows T) = n"
    "length (rows G0) = n" "length (rows Q) = n"
    using wf(1) wf_matrix_length [of G] wf(2) wf_matrix_length [of M]
      wf(3) wf_matrix_length [of T] wf(4) wf_matrix_length [of G0]
      wf(5) wf_matrix_length [of Q] by simp_all
  note G1 = wf_mat_times [OF conjunct1 [OF wf(2)] wf_matrix_length [OF conjunct1 [OF wf(1)]] c(1)]
  note G0T = wf_mat_add [OF conjunct1 [OF wf(4)] conjunct1 [OF wf(3)] c(2)]
  note QG0T = wf_mat_times [OF conjunct1 [OF G0T] wf_matrix_length [OF conjunct1 [OF wf(5)]] c(3)]
  note G2 = wf_mat_times [OF conjunct1 [OF wf(2)] wf_matrix_length [OF conjunct1 [OF QG0T]] c(4)]
  have okG0T: "\<forall>r\<in>set (rows G0T). length r = n"
    using G0T wf(4) wf_matrix_rows [of G0T] by simp
  have lG0T: "length (rows G0T) = n" using G0T wf(4) wf_matrix_length [of G0T] by simp
  have okQG0T: "\<forall>r\<in>set (rows QG0T). length r = n"
    using QG0T G0T wf(4) wf_matrix_rows [of QG0T] by simp
  have lQG0T: "length (rows QG0T) = n" using QG0T wf(5) wf_matrix_length [of QG0T] by simp
  define eQ where "eQ = vecmat n e (rows Q)"
  have leQ: "length eQ = n" unfolding eQ_def using okQ by simp
  have 1: "vecmat n u (rows G1) = vecmat n (vecmat n u (rows G)) (rows M)"
    using vecmat_assoc [OF okM, of "rows G" u] okG len lu G1 wf(2) by simp
  have 2: "vecmat n e (rows QG0T) = vecmat n eQ (rows G0T)"
    using vecmat_assoc [OF okG0T, of "rows Q" e] okQ len le lG0T QG0T G0T wf(4)
    unfolding eQ_def by simp
  have 3: "vecmat n eQ (rows G0T) = vadd (vecmat n eQ (rows G0)) (vecmat n eQ (rows T))"
    using vecmat_map2_vadd [OF _ okG0 okT, of eQ] len G0T by simp
  have 4: "vecmat n e (rows G2) = vecmat n (vecmat n e (rows QG0T)) (rows M)"
    using vecmat_assoc [OF okM, of "rows QG0T" e] okQG0T len le lQG0T G2 wf(2) by simp
  have "vadd (vecmat n (vecmat n u (rows G)) (rows M))
             (vecmat n (vadd (vecmat n eQ (rows G0)) (vecmat n eQ (rows T))) (rows M))
        = vecmat n (vadd (vecmat n u (rows G))
             (vadd (vecmat n eQ (rows G0)) (vecmat n eQ (rows T)))) (rows M)"
    by (rule vecmat_vadd [OF okM, symmetric]) (use okG okG0 okT len in simp_all)
  then show ?thesis unfolding 1 4 2 3 unfolding eQ_def .
qed

text \<open>
  C1: round-trip correctness.  For every key pair \<open>(pk, sk)\<close> returned by \<open>key_gen(n, k)\<close>,
  every plaintext \<open>u\<close> of length \<open>k\<close> and every state of the random source from which the
  error vector is drawn, encryption returns a ciphertext, and decryption of this
  ciphertext returns \<open>u\<close>.
\<close>

theorem round_trip:
  assumes kg: "key_gen n k rs = Some (Inr ((pk, sk), rs'))" and lu: "length u = k"
  shows "\<exists>ct rs2. enc n pk u rs1 = Inr (ct, rs2) \<and> dec n k sk ct = Inr u"
proof -
  obtain G1 G2 where pk: "pk = (G1, G2)" by (cases pk)
  obtain G M T Q G0 J where sk: "sk = (G, M, T, Q, G0, J)" by (cases sk) auto
  note kg' = kg [unfolded pk sk]
  note wf = key_gen_wf [OF kg']
  have J: "J = pivots G" using key_genE [OF kg'] by metis
  define e where "e = map rs1 [0..<n]"
  define x where "x = vecmat n e (rows Q)"
  define ct where "ct = vadd (vecmat n u (rows G1)) (vecmat n e (rows G2))"
  have le: "length e = n" by (simp add: e_def)
  have lx: "length x = n" unfolding x_def using wf(5) wf_matrix_rows [of Q] by simp
  have okG1: "\<forall>r\<in>set (rows G1). length r = n" using wf(6) wf_matrix_rows [of G1] by simp
  have okG2: "\<forall>r\<in>set (rows G2). length r = n" using wf(7) wf_matrix_rows [of G2] by simp
  have en: "enc n pk u rs1 = Inr (ct, \<lambda>i. rs1 (i + n))"
    using wf(6,7) lu le okG1 okG2
    by (simp add: enc_def pk random_vector_def vec_times_mat_def vec_add_def bind_err_def
        ct_def e_def)
  obtain g where g: "length g = k" "vecmat n x (rows G0) = vecmat n g (rows G)"
    using key_gen_G0_codeword [OF kg' lx] by blast
  have xT: "select (pivots G) (vecmat n x (rows T)) = zerov k"
    using key_gen_Q_kernel [OF kg' le] unfolding x_def J .
  have ctw: "ct = vecmat n (vadd (vecmat n u (rows G))
                 (vadd (vecmat n x (rows G0)) (vecmat n x (rows T)))) (rows M)"
    unfolding ct_def x_def by (rule key_gen_ciphertext [OF kg' lu le])
  have 1: "dec_uG n (G, M, T, Q, G0, pivots G) ct = Inr (vecmat n u (rows G))"
    by (rule dec_uG_value [OF _ _ _ _ _ _ _ _ _ _ _ _ _ _ _ lu lx g(1) g(2) xT ctw])
       (use wf in simp_all)
  have 2: "bind_err (dec_Gconc n (G, M, T, Q, G0, J) (vecmat n u (rows G)))
           (\<lambda>Gconc. Inr (map last (take k (rows (rref Gconc))))) = Inr u"
    by (rule dec_solve [OF _ _ _ _ lu]) (use wf in simp_all)
  have "dec n k sk ct = Inr u"
    unfolding dec_def sk using 1 2 unfolding J [symmetric] by (simp add: bind_err_def)
  then show ?thesis using en by blast
qed

theorem round_trip_witness:
  "\<exists>pk sk rs' ct rs2.
     key_gen 3 2 (tape [1, 0, 1, 0, 1, 1, 0, 1, 1, 1, 1, 0, 1, 0, 0, 0, 1, 0, 0, 1, 1,
                          1, 1, 0, 1, 1, 0, 0, 1, 0, 0, 1, 1 :: gf2])
       = Some (Inr ((pk, sk), rs'))
     \<and> length [1, 0 :: gf2] = 2
     \<and> enc 3 pk [1, 0] (tape [1, 1, 0]) = Inr (ct, rs2) \<and> dec 3 2 sk ct = Inr [1, 0]"
proof -
  let ?rs = "tape [1, 0, 1, 0, 1, 1, 0, 1, 1, 1, 1, 0, 1, 0, 0, 0, 1, 0, 0, 1, 1,
                   1, 1, 0, 1, 1, 0, 0, 1, 0, 0, 1, 1 :: gf2]"
  have "map_option isl (key_gen 3 2 ?rs) = Some False" by code_simp
  then obtain pk sk rs' where kg: "key_gen 3 2 ?rs = Some (Inr ((pk, sk), rs'))"
  proof (cases "key_gen 3 2 ?rs")
    case None
    with \<open>map_option isl (key_gen 3 2 ?rs) = Some False\<close> show ?thesis by simp
  next
    case (Some a)
    with \<open>map_option isl (key_gen 3 2 ?rs) = Some False\<close> have "\<not> isl a" by simp
    then obtain b where "a = Inr b" by (cases a) simp_all
    moreover obtain pk sk rs' where "b = ((pk, sk), rs')" by (cases b) auto
    ultimately show ?thesis using Some that by simp
  qed
  have lu: "length [1, 0 :: gf2] = 2" by simp
  from round_trip [OF kg lu, of "tape [1, 1, 0]"] kg lu show ?thesis by blast
qed

section \<open>The attack in the full-rank case\<close>

lemma columns_append: "map2 (@) (columns n A) (columns n B) = columns n (A @ B)"
  by (induction n arbitrary: A B) simp_all

lemma vecmat_append:
  "length c = length A \<Longrightarrow> \<forall>r\<in>set A. length r = n \<Longrightarrow> \<forall>r\<in>set B. length r = n \<Longrightarrow>
   vecmat n (c @ d) (A @ B) = vadd (vecmat n c A) (vecmat n d B)"
  by (induction c A rule: list_induct2) (simp_all add: vadd_assoc)

text \<open>A square matrix of full rank has a trivial right kernel.\<close>

lemma full_rank_trivial_kernel:
  assumes A: "wf_matrix A" and sq: "nrows A = ncols A" and rk: "rank A = nrows A"
    and ly: "length y = nrows A" and ker: "\<forall>a\<in>set (rows A). dot a y = 0"
  shows "y = zerov (nrows A)"
proof -
  have ok: "\<forall>r\<in>set (rows A). length r = nrows A" using wf_matrix_rows [OF A] sq by simp
  have "dot r y = 0" if "r \<in> set (identity_rows (nrows A))" for r
    using dot_rowspace [OF ok ker] full_rank_identity_span [OF A sq rk] that by blast
  then have "map (\<lambda>r. dot r y) (identity_rows (nrows A)) = zerov (nrows A)"
    by (intro nth_equalityI) simp_all
  then show ?thesis unfolding map_dot_identity [OF ly] .
qed

text \<open>The first \<open>m\<close> rows of the reduced form span the row space when the rank is at
  most \<open>m\<close>.\<close>

lemma rank_le_take_span:
  assumes A: "wf_matrix A" and rk: "rank A \<le> m" and v: "in_rowspace (ncols A) (rows A) v"
  shows "in_rowspace (ncols A) (take m (rows (rref A))) v"
proof -
  let ?n = "ncols A" and ?R = "rows (rref A)"
  let ?p = "length (pivot_cols ?R)"
  have okA: "\<forall>r\<in>set (rows A). length r = ?n" by (rule wf_matrix_rows [OF A])
  have R: "is_rref ?n ?R" by (rule is_rref_rref [OF A])
  have okR: "\<forall>r\<in>set ?R. length r = ?n" by (rule is_rref_rows_ok [OF R])
  have p: "?p \<le> m" using rk rank_pivot_cols [OF A] by simp
  have 1: "in_rowspace ?n ?R v"
    using rows_in_rowspace_rref [OF okA] v
    by (intro in_rowspace_trans [of ?R ?n "rows A" v] okR) simp_all
  have okp: "\<forall>r\<in>set (take ?p ?R). length r = ?n" using okR by (auto dest: in_set_takeD)
  have okm: "\<forall>r\<in>set (take m ?R). length r = ?n" using okR by (auto dest: in_set_takeD)
  have 2: "in_rowspace ?n (take ?p ?R) v"
    using rref_nonzero_rows_span [OF R] 1
    by (intro in_rowspace_trans [of "take ?p ?R" ?n ?R v] okp) simp_all
  have "set (take ?p ?R) \<subseteq> set (take m ?R)" using p by (rule set_take_subset_set_take)
  then show ?thesis using 2 by (intro in_rowspace_mono [of "take m ?R" ?n "take ?p ?R" v] okm)
qed

lemma attack_full_rank:
  fixes G1 G2 :: "'a::field matrix"
  assumes G1: "wf_matrix G1" "nrows G1 = k" "ncols G1 = n"
    and G2: "wf_matrix G2" "nrows G2 = n" "ncols G2 = n" "rank G2 \<le> n - k" and kn: "k \<le> n"
    and lu: "length u = k" and le: "length e = n"
    and Gm: "attack_Gmult n k (G1, G2) = Inr Gmult" and rk: "rank Gmult = n"
    and ct: "ct = vadd (vecmat n u (rows G1)) (vecmat n e (rows G2))"
  shows "attack n k (G1, G2) ct
         = Inr (Matrix k 1 (map (\<lambda>x. [x]) u), Matrix k 0 (replicate k []))"
proof -
  define red where "red = take (n - k) (rows (rref G2))"
  define S where "S = rows G1 @ red"
  have okG1: "\<forall>r\<in>set (rows G1). length r = n" using wf_matrix_rows [OF G1(1)] G1 by simp
  have lG1: "length (rows G1) = k" using wf_matrix_length [OF G1(1)] G1 by simp
  have okG2: "\<forall>r\<in>set (rows G2). length r = n" using wf_matrix_rows [OF G2(1)] G2 by simp
  have lG2: "length (rows G2) = n" using wf_matrix_length [OF G2(1)] G2 by simp
  have okR: "\<forall>r\<in>set (rows (rref G2)). length r = n"
    using wf_matrix_rows [OF wf_rref [OF G2(1)]] G2 by simp
  have lR: "length (rows (rref G2)) = n" using wf_matrix_length [OF wf_rref [OF G2(1)]] G2 by simp
  have okred: "\<forall>r\<in>set red. length r = n" unfolding red_def using okR by (auto dest: in_set_takeD)
  have lred: "length red = n - k" unfolding red_def using lR by simp
  have okS: "\<forall>r\<in>set S. length r = n" unfolding S_def using okG1 okred by auto
  have lS: "length S = n" unfolding S_def using lG1 lred kn by simp
  have slice: "slice_upto (int n - int k) (rows (rref G2)) = red"
    unfolding red_def slice_upto_def using kn by (simp add: nat_diff_distrib')
  have Gmult: "Gmult = Matrix n n (columns n S)"
    using Gm G1 G2 lred kn unfolding attack_Gmult_def attack_G2red_def prod.case slice Let_def S_def
    by (auto simp: augment_def columns_append [symmetric] split: if_splits)
  have wfG: "wf_matrix Gmult" unfolding Gmult using lS
    by (auto simp: wf_matrix_iff dest: columns_ok)
  have okA: "\<forall>r\<in>set (columns n S). length r = n" using lS by (auto dest: columns_ok)
  \<comment> \<open>the error part of the ciphertext is a combination of the reduced rows\<close>
  have "in_rowspace (ncols G2) (rows G2) (vecmat n e (rows G2))"
    using G2 le lG2 by (intro in_rowspaceI [of e]) simp_all
  from rank_le_take_span [OF G2(1) G2(4) this]
  have "in_rowspace n red (vecmat n e (rows G2))" unfolding red_def using G2 by simp
  then obtain e' where e': "length e' = n - k" "vecmat n e (rows G2) = vecmat n e' red"
    unfolding in_rowspace_def using lred by auto
  define z where "z = u @ e'"
  have lz: "length z = n" unfolding z_def using lu e' kn by simp
  have "ct = vecmat n z S"
    unfolding ct e'(2) z_def S_def using vecmat_append [of u "rows G1" n red e'] lu lG1 okG1 okred
    by simp
  then have ctz: "ct = map (\<lambda>a. dot a z) (columns n S)"
    unfolding vecmat_columns [OF okS] by (simp add: dot_commute [of z])
  have lct: "length ct = n" unfolding ctz by simp
  \<comment> \<open>the system has the single solution \<open>z\<close>\<close>
  have ker: "y = zerov n" if "length y = n" "\<forall>a\<in>set (columns n S). dot a y = 0" for y
    using full_rank_trivial_kernel [OF wfG, of y] rk that unfolding Gmult by simp
  let ?X = "rref_rows (Suc n) (map2 (@) (columns n S) (map (\<lambda>x. [x]) ct))"
  have sol: "map last (take n ?X) = z"
    unfolding ctz by (rule solve_unique [OF okA lz ker])
  have okaug: "\<forall>r\<in>set (map2 (@) (columns n S) (map (\<lambda>x. [x]) ct)). length r = n + 1"
    by (rule map2_append_ok [OF _ okA]) (auto simp: lct)
  have X: "is_rref (Suc n) ?X" using okaug by (intro is_rref_rref_rows) simp
  have okX: "\<forall>r\<in>set ?X. length r = Suc n" by (rule is_rref_rows_ok [OF X])
  have "wf_matrix (rref (Matrix n (Suc n) (map2 (@) (columns n S) (map (\<lambda>x. [x]) ct))))"
    using okaug lct by (intro wf_rref) (simp add: wf_matrix_iff)
  from wf_matrix_length [OF this] have lX: "length ?X = n" by simp
  have ltop: "length (take k ?X) = k" using lX kn by simp
  have "map last (take k ?X) = take k (map last (take n ?X))"
    using kn by (simp add: take_map [symmetric] min_def)
  also have "\<dots> = u" unfolding sol z_def using lu by simp
  finally have top: "map last (take k ?X) = u" .
  have fixed: "map (\<lambda>r. [last r]) (take k ?X) = map (\<lambda>x. [x]) u"
    unfolding top [symmetric] by simp
  have amb: "map (\<lambda>r. drop n (butlast r)) (take k ?X) = replicate k []"
    using okX ltop by (intro replicate_eqI) (auto dest: in_set_takeD)
  show ?thesis
    unfolding attack_def Gm bind_err_def sum.case Let_def rk
    using lct fixed amb ltop
    by (simp add: column_matrix_def augment_def Gmult)
qed

text \<open>
  C2: attack correctness in the full-rank case.  For every key pair returned by
  \<open>key_gen(n, k)\<close>, every plaintext \<open>u\<close> of length \<open>k\<close> and every ciphertext \<open>ct\<close> returned
  by \<open>enc(pk, u)\<close>: if the assembled matrix \<open>Gmult\<close> has rank \<open>n\<close>, then the attack returns
  the column with the entries of \<open>u\<close> and an ambiguity basis with \<open>k\<close> rows and no column.
\<close>

theorem attack_recovers_plaintext:
  assumes kg: "key_gen n k rs = Some (Inr ((pk, sk), rs'))" and lu: "length u = k"
    and en: "enc n pk u rs1 = Inr (ct, rs2)"
    and Gm: "attack_Gmult n k pk = Inr Gmult" and rk: "rank Gmult = n"
  shows "attack n k pk ct = Inr (Matrix k 1 (map (\<lambda>x. [x]) u), Matrix k 0 (replicate k []))"
proof -
  obtain G1 G2 where pk: "pk = (G1, G2)" by (cases pk)
  obtain G M T Q G0 J where sk: "sk = (G, M, T, Q, G0, J)" by (cases sk) auto
  note kg' = kg [unfolded pk sk]
  note wf = key_gen_wf [OF kg']
  have r2: "rank G2 \<le> n - k" using key_gen_rank_Q [OF kg'] key_gen_rank_G2 [OF kg'] by simp
  have okG1: "\<forall>r\<in>set (rows G1). length r = n" using wf(6) wf_matrix_rows [of G1] by simp
  have okG2: "\<forall>r\<in>set (rows G2). length r = n" using wf(7) wf_matrix_rows [of G2] by simp
  have ct: "ct = vadd (vecmat n u (rows G1)) (vecmat n (map rs1 [0..<n]) (rows G2))"
    using en wf(6,7) lu okG1 okG2
    by (simp add: enc_def pk random_vector_def vec_times_mat_def vec_add_def bind_err_def)
  show ?thesis unfolding pk
    by (rule attack_full_rank [OF _ _ _ _ _ _ r2 _ lu _ Gm [unfolded pk] rk ct])
       (use wf in simp_all)
qed

theorem attack_recovers_plaintext_witness:
  "\<exists>sk rs' rs2.
     key_gen 3 2 (tape [1, 0, 1, 0, 1, 1, 0, 1, 1, 1, 1, 0, 1, 0, 0, 0, 1, 0, 0, 1, 1,
                          1, 1, 0, 1, 1, 0, 0, 1, 0, 0, 1, 1 :: gf2])
       = Some (Inr (((Matrix 2 3 [[1, 0, 1], [0, 0, 1]],
                      Matrix 3 3 [[0, 1, 0], [0, 1, 0], [0, 0, 0]]), sk), rs'))
     \<and> length [1, 0 :: gf2] = 2
     \<and> enc 3
          (Matrix 2 3 [[1, 0, 1], [0, 0, 1]], Matrix 3 3 [[0, 1, 0], [0, 1, 0], [0, 0, 0 :: gf2]])
          [1, 0] (tape [0, 1, 1]) = Inr ([1, 1, 1], rs2)
     \<and> attack_Gmult 3 2
          (Matrix 2 3 [[1, 0, 1], [0, 0, 1]], Matrix 3 3 [[0, 1, 0], [0, 1, 0], [0, 0, 0 :: gf2]])
         = Inr (Matrix 3 3 [[1, 0, 0], [0, 0, 1], [1, 1, 0]])
     \<and> rank (Matrix 3 3 [[1, 0, 0], [0, 0, 1], [1, 1, 0 :: gf2]]) = 3
     \<and> attack 3 2
          (Matrix 2 3 [[1, 0, 1], [0, 0, 1]], Matrix 3 3 [[0, 1, 0], [0, 1, 0], [0, 0, 0 :: gf2]])
          [1, 1, 1]
         = Inr (Matrix 2 1 [[1], [0]], Matrix 2 0 [[], []])"
proof -
  let ?rs = "tape [1, 0, 1, 0, 1, 1, 0, 1, 1, 1, 1, 0, 1, 0, 0, 0, 1, 0, 0, 1, 1,
                   1, 1, 0, 1, 1, 0, 0, 1, 0, 0, 1, 1 :: gf2]"
  let ?pk = "(Matrix 2 3 [[1, 0, 1], [0, 0, 1]],
              Matrix 3 3 [[0, 1, 0], [0, 1, 0], [0, 0, 0 :: gf2]])"
  let ?Gm = "Matrix 3 3 [[1, 0, 0], [0, 0, 1], [1, 1, 0 :: gf2]]"
  have "map_option (map_sum id (\<lambda>r. fst (fst r))) (key_gen 3 2 ?rs) = Some (Inr ?pk)"
    by code_simp
  then obtain sk rs' where kg: "key_gen 3 2 ?rs = Some (Inr ((?pk, sk), rs'))"
    by (cases "key_gen 3 2 ?rs") (auto simp: map_sum_def split: sum.splits)
  have "map_sum id fst (enc 3 ?pk [1, 0] (tape [0, 1, 1])) = Inr [1, 1, 1]"
    by code_simp
  then obtain rs2 where en: "enc 3 ?pk [1, 0] (tape [0, 1, 1]) = Inr ([1, 1, 1], rs2)"
    by (cases "enc 3 ?pk [1, 0] (tape [0, 1, 1])") auto
  have lu: "length [1, 0 :: gf2] = 2" by simp
  have Gm: "attack_Gmult 3 2 ?pk = Inr ?Gm" by code_simp
  have rk: "rank ?Gm = 3" by code_simp
  have "replicate 2 ([] :: gf2 list) = [[], []]" by (simp add: numeral_2_eq_2)
  with attack_recovers_plaintext [OF kg lu en Gm rk]
  have "attack 3 2 ?pk [1, 1, 1] = Inr (Matrix 2 1 [[1], [0]], Matrix 2 0 [[], []])"
    by simp
  with kg lu en Gm rk show ?thesis by blast
qed

section \<open>The rank of the second public matrix\<close>

text \<open>Linearly independent combinations of \<open>w\<close> vectors are at most \<open>w\<close> in number.\<close>

lemma indep_le_generators:
  assumes B: "lin_indep n B" and W: "\<forall>r\<in>set W. length r = n"
    and BW: "\<forall>b\<in>set B. in_rowspace n W b"
  shows "length B \<le> length W"
proof (rule ccontr)
  assume "\<not> length B \<le> length W"
  then have less: "length W < length B" by simp
  have "\<exists>C. length C = length B \<and> (\<forall>c\<in>set C. length c = length W)
          \<and> map (\<lambda>c. vecmat n c W) C = B"
    using BW
  proof (induction B)
    case Nil
    then show ?case by simp
  next
    case (Cons b B)
    then obtain C where C: "length C = length B" "\<forall>c\<in>set C. length c = length W"
      "map (\<lambda>c. vecmat n c W) C = B" by auto
    obtain c where c: "length c = length W" "b = vecmat n c W"
      using Cons.prems unfolding in_rowspace_def by auto
    show ?case using C c by (intro exI [of _ "c # C"]) simp
  qed
  then obtain C where lC: "length C = length B" and okC: "\<forall>c\<in>set C. length c = length W"
    and CB: "map (\<lambda>c. vecmat n c W) C = B" by blast
  obtain x where x: "length x = length C" "x \<noteq> zerov (length C)"
    "vecmat (length W) x C = zerov (length W)"
    using exists_kernel_vector [OF okC] less lC by auto
  have "vecmat n x B = vecmat n (vecmat (length W) x C) W"
    unfolding CB [symmetric] by (rule vecmat_assoc [OF W okC x(1), symmetric])
  also have "\<dots> = zerov n" unfolding x(3) by (rule vecmat_zerov [OF W])
  finally have "x = zerov (length B)" using B x(1) lC unfolding lin_indep_def by simp
  then show False using x(2) lC by simp
qed

text \<open>The rank is at least the number of linearly independent vectors of the row space.\<close>

lemma indep_le_rank:
  assumes A: "wf_matrix A" and B: "lin_indep (ncols A) B"
    and BA: "\<forall>b\<in>set B. in_rowspace (ncols A) (rows A) b"
  shows "length B \<le> rank A"
proof -
  let ?W = "take (rank A) (rows (rref A))"
  have okW: "\<forall>r\<in>set ?W. length r = ncols A"
    using wf_matrix_rows [OF wf_rref [OF A]] by (auto dest: in_set_takeD)
  have "\<forall>b\<in>set B. in_rowspace (ncols A) ?W b"
    using rank_le_take_span [OF A order_refl] BA by blast
  from indep_le_generators [OF B okW this] show ?thesis by simp
qed

text \<open>The rows of a matrix of full column rank span the whole space.\<close>

lemma full_column_rank_span:
  fixes A :: "'a::field matrix"
  assumes A: "wf_matrix A" and rk: "rank A = ncols A" and le: "length e = ncols A"
  shows "in_rowspace (ncols A) (rows A) e"
proof -
  let ?n = "ncols A" and ?E = "rref_rows (ncols A) (rows A)"
  have okA: "\<forall>r\<in>set (rows A). length r = ?n" by (rule wf_matrix_rows [OF A])
  have E: "is_rref ?n ?E" by (rule is_rref_rref_rows [OF okA])
  have "length (pivot_cols ?E) = ?n" using rk rank_pivot_cols [OF A] by simp
  from is_rref_full_pivots [OF E this] have I: "take ?n ?E = identity_rows ?n" .
  have "\<forall>b\<in>set (identity_rows ?n). in_rowspace ?n (rows A) b"
  proof
    fix b :: "'a list" assume "b \<in> set (identity_rows ?n)"
    then have "b \<in> set ?E" unfolding I [symmetric] by (rule in_set_takeD)
    then show "in_rowspace ?n (rows A) b" by (rule rref_rows_in_rowspace [OF okA])
  qed
  moreover have "in_rowspace ?n (identity_rows ?n) e"
    using le by (intro in_rowspaceI [of e]) simp_all
  ultimately show ?thesis by (rule in_rowspace_trans [OF okA])
qed

text \<open>A combination of the right kernel basis of the selected columns of \<open>T\<close>, multiplied
  by \<open>T\<close>, vanishes in the selected columns.\<close>

lemma right_kernel_select:
  assumes T: "wf_matrix T" "nrows T = n" "ncols T = n"
    and TJ: "matrix_from_columns T J = Inr TJ"
    and x: "in_rowspace n (rows (right_kernel_matrix (transpose_mat TJ))) x"
  shows "select J (vecmat n x (rows T)) = zerov (length J)"
proof -
  let ?HJ = "right_kernel_matrix (transpose_mat TJ)"
  let ?k = "length J"
  note c = wf_matrix_from_columns [OF T(1) TJ]
  have okT: "\<forall>r\<in>set (rows T). length r = n" using wf_matrix_rows [OF T(1)] T by simp
  have okTJ: "\<forall>r\<in>set (rows TJ). length r = ?k" using c wf_matrix_rows [of TJ] by simp
  have lTJ: "length (rows TJ) = n" using c T wf_matrix_length [of TJ] by simp
  have Jn: "\<forall>j\<in>set J. j < n" using c T by simp
  have wfTt: "wf_matrix (transpose_mat TJ)" using c by (intro wf_transpose) simp
  note HJ = right_kernel_props [OF wfTt]
  have okHJ: "\<forall>b\<in>set (rows ?HJ). length b = length (rows TJ)"
    using wf_matrix_rows [OF HJ(1)] c T lTJ by simp
  obtain h where h: "length h = length (rows ?HJ)" "x = vecmat n h (rows ?HJ)"
    using x unfolding in_rowspace_def by auto
  have zero: "vecmat ?k b (rows TJ) = zerov ?k" if "b \<in> set (rows ?HJ)" for b
  proof -
    have "\<forall>a\<in>set (columns ?k (rows TJ)). dot a b = 0" using HJ(3) that c by simp
    then have "map (dot b) (columns ?k (rows TJ)) = zerov ?k"
      by (intro nth_equalityI) (simp_all add: dot_commute [of b])
    then show ?thesis unfolding vecmat_columns [OF okTJ] .
  qed
  have "select J (vecmat n x (rows T)) = vecmat ?k x (map (select J) (rows T))"
    by (rule select_vecmat [OF okT Jn])
  also have "\<dots> = vecmat ?k (vecmat (length (rows TJ)) h (rows ?HJ)) (rows TJ)"
    using c h(2) lTJ by simp
  also have "\<dots> = vecmat ?k h (map (\<lambda>b. vecmat ?k b (rows TJ)) (rows ?HJ))"
    by (rule vecmat_assoc [OF okTJ okHJ h(1)])
  also have "map (\<lambda>b. vecmat ?k b (rows TJ)) (rows ?HJ) = replicate (length (rows ?HJ)) (zerov ?k)"
    using zero by (intro replicate_eqI) auto
  finally show ?thesis by (simp add: vecmat_zero_rows)
qed

text \<open>A vector that an invertible matrix sends to zero is zero.\<close>

lemma full_rank_injective:
  assumes A: "wf_matrix A" and sq: "nrows A = ncols A" and rk: "rank A = nrows A"
    and lw: "length w = nrows A" and z: "vecmat (nrows A) w (rows A) = zerov (nrows A)"
  shows "w = zerov (nrows A)"
proof -
  obtain X where X: "inverse_mat A = Inr X" using inverse_mat_full_rank [OF A sq rk] by blast
  note c = inverse_mat_correct [OF A X]
  have okX: "\<forall>r\<in>set (rows X). length r = nrows A" using c wf_matrix_rows [of X] by simp
  have "w = vecmat (nrows A) (zerov (nrows A)) (rows X)"
    using vecmat_inverse_cancel [OF A X lw] unfolding z by simp
  then show ?thesis using okX by simp
qed

text \<open>
  The second public matrix of a generated key has rank exactly \<open>n - k\<close>: the images of the
  \<open>n - k\<close> rows of the kernel basis \<open>HJ\<close> under \<open>(G0 + T) * M\<close> belong to the row space of
  \<open>G2\<close> and are linearly independent.
\<close>

lemma key_gen_rank_G2_eq:
  assumes kg: "key_gen n k rs = Some (Inr (((G1, G2), (G, M, T, Q, G0, J)), rs'))"
  shows "rank G2 = n - k"
proof (rule antisym)
  show "rank G2 \<le> n - k" using key_gen_rank_Q [OF kg] key_gen_rank_G2 [OF kg] by simp
next
  from key_genE [OF kg] obtain rs3 TJ L rs4 G0T QG0T where
    c: "J = pivots G" "matrix_from_columns T J = Inr TJ"
    "random_nonsingular_matrix n (n - k) rs3 = Some (L, rs4)"
    "mat_times L (right_kernel_matrix (transpose_mat TJ)) = Inr Q"
    "mat_add G0 T = Inr G0T" "mat_times Q G0T = Inr QG0T" "mat_times QG0T M = Inr G2"
    by metis
  let ?HJ = "right_kernel_matrix (transpose_mat TJ)"
  note wf = key_gen_wf [OF kg]
  note L = random_nonsingular_matrix_props [OF c(3)]
  have kn: "k \<le> n" using wf(1) by simp
  have lJ: "length J = k" using pivots_full_rank(1) [of G] wf(1) c(1) by simp
  note TJ = wf_matrix_from_columns [OF conjunct1 [OF wf(3)] c(2)]
  have wfTt: "wf_matrix (transpose_mat TJ)" using TJ by (intro wf_transpose) simp
  note HJ = right_kernel_props [OF wfTt]
  note Qm = wf_mat_times [OF HJ(1) wf_matrix_length [OF conjunct1 [OF L]] c(4)]
  note G0T = wf_mat_add [OF conjunct1 [OF wf(4)] conjunct1 [OF wf(3)] c(5)]
  note QG0T = wf_mat_times [OF conjunct1 [OF G0T] wf_matrix_length [OF conjunct1 [OF wf(5)]] c(6)]
  note G2m = wf_mat_times [OF conjunct1 [OF wf(2)] wf_matrix_length [OF conjunct1 [OF QG0T]] c(7)]
  have okG: "\<forall>r\<in>set (rows G). length r = n" using wf(1) wf_matrix_rows [of G] by simp
  have okM: "\<forall>r\<in>set (rows M). length r = n" using wf(2) wf_matrix_rows [of M] by simp
  have okT: "\<forall>r\<in>set (rows T). length r = n" using wf(3) wf_matrix_rows [of T] by simp
  have okG0: "\<forall>r\<in>set (rows G0). length r = n" using wf(4) wf_matrix_rows [of G0] by simp
  have okQ: "\<forall>r\<in>set (rows Q). length r = n" using wf(5) wf_matrix_rows [of Q] by simp
  have okG0T: "\<forall>r\<in>set (rows G0T). length r = n"
    using G0T wf(4) wf_matrix_rows [of G0T] by simp
  have okQG0T: "\<forall>r\<in>set (rows QG0T). length r = n"
    using QG0T G0T wf(4) wf_matrix_rows [of QG0T] by simp
  have okHJ: "\<forall>r\<in>set (rows ?HJ). length r = n"
    using wf_matrix_rows [OF HJ(1)] TJ wf(3) by simp
  have okL: "\<forall>r\<in>set (rows L). length r = n - k" using L wf_matrix_rows [of L] by simp
  have lG: "length (rows G) = k" using wf(1) wf_matrix_length [of G] by simp
  have lM: "length (rows M) = n" using wf(2) wf_matrix_length [of M] by simp
  have lT: "length (rows T) = n" using wf(3) wf_matrix_length [of T] by simp
  have lG0: "length (rows G0) = n" using wf(4) wf_matrix_length [of G0] by simp
  have lQ: "length (rows Q) = n" using wf(5) wf_matrix_length [of Q] by simp
  have lL: "length (rows L) = n" using L wf_matrix_length [of L] by simp
  have lG0T: "length (rows G0T) = n" using G0T wf(4) wf_matrix_length [of G0T] by simp
  have lQG0T: "length (rows QG0T) = n" using QG0T wf(5) wf_matrix_length [of QG0T] by simp
  have lHJ: "length (rows ?HJ) = n - k" using Qm L wf_matrix_length [OF HJ(1)] by simp
  have rQ: "rows Q = map (\<lambda>a. vecmat n a (rows ?HJ)) (rows L)" using Qm TJ wf(3) by simp
  have rQG0T: "rows QG0T = map (\<lambda>a. vecmat n a (rows G0T)) (rows Q)" using QG0T G0T wf(4) by simp
  have rG2: "rows G2 = map (\<lambda>a. vecmat n a (rows M)) (rows QG0T)" using G2m wf(2) by simp
  have rG0T: "rows G0T = map2 vadd (rows G0) (rows T)" using G0T by simp
  define f where "f x = vecmat n (vecmat n x (rows G0T)) (rows M)" for x
  define B where "B = map f (rows ?HJ)"
  \<comment> \<open>the images are linearly independent\<close>
  have indep: "lin_indep n B"
    unfolding lin_indep_def
  proof (intro allI impI)
    fix d :: "'a list"
    assume d: "length d = length B \<and> vecmat n d B = zerov n"
    then have ld: "length d = length (rows ?HJ)" by (simp add: B_def)
    define x where "x = vecmat n d (rows ?HJ)"
    have lx: "length x = n" unfolding x_def using okHJ by simp
    have xs: "in_rowspace n (rows ?HJ) x" unfolding x_def using ld by (intro in_rowspaceI [of d]) simp_all
    define w where "w = vecmat n x (rows G0T)"
    have lw: "length w = n" unfolding w_def using okG0T by simp
    have okI: "\<forall>b\<in>set (map (\<lambda>h. vecmat n h (rows G0T)) (rows ?HJ)). length b = length (rows M)"
      using okG0T lM by simp
    have "vecmat n d B = vecmat n d (map (\<lambda>b. vecmat n b (rows M))
                                     (map (\<lambda>h. vecmat n h (rows G0T)) (rows ?HJ)))"
      unfolding B_def f_def by (simp add: o_def)
    also have "\<dots> = vecmat n (vecmat (length (rows M)) d (map (\<lambda>h. vecmat n h (rows G0T)) (rows ?HJ)))
                       (rows M)"
      by (rule vecmat_assoc [OF okM okI, symmetric]) (simp add: ld)
    also have "vecmat (length (rows M)) d (map (\<lambda>h. vecmat n h (rows G0T)) (rows ?HJ))
               = vecmat n (vecmat (length (rows G0T)) d (rows ?HJ)) (rows G0T)"
      unfolding lM
      by (rule vecmat_assoc [OF okG0T _ ld, symmetric]) (use okHJ lG0T in simp)
    finally have "vecmat n w (rows M) = zerov n"
      using d unfolding w_def x_def lG0T by simp
    then have w0: "w = zerov n"
      using full_rank_injective [of M w] wf(2) lw by simp
    have wsum: "w = vadd (vecmat n x (rows G0)) (vecmat n x (rows T))"
      unfolding w_def rG0T
      by (rule vecmat_map2_vadd [OF _ okG0 okT]) (simp add: lG0 lT)
    obtain g where g: "length g = k" "vecmat n x (rows G0) = vecmat n g (rows G)"
      using key_gen_G0_codeword [OF kg lx] by blast
    have xT: "select J (vecmat n x (rows T)) = zerov k"
      using right_kernel_select [OF _ _ _ c(2) xs] wf(3) lJ by simp
    have Jn: "\<forall>j\<in>set J. j < n" using TJ wf(3) by simp
    have "select J w = vadd (select J (vecmat n g (rows G))) (select J (vecmat n x (rows T)))"
      unfolding wsum g(2) by (rule select_vadd) (use Jn okG okT in simp)
    then have "select J (vecmat n g (rows G)) = zerov k"
      unfolding xT w0 using select_zerov [OF Jn] lJ by (metis length_select vadd_zerov_right)
    then have gJ: "vecmat k g (map (select J) (rows G)) = zerov k"
      using select_vecmat [OF okG Jn, of g] lJ by simp
    let ?GJ = "Matrix (nrows G) (nrows G) (map (select (pivots G)) (rows G))"
    have GJ: "wf_matrix ?GJ" using pivot_submatrix_inverse(1) [of G] wf(1) by simp
    obtain X where X: "inverse_mat ?GJ = Inr X"
      using pivot_submatrix_inverse(2) [of G] wf(1) by auto
    note cX = inverse_mat_correct [OF GJ X]
    have okX: "\<forall>r\<in>set (rows X). length r = k" using cX wf(1) wf_matrix_rows [of X] by simp
    have "vecmat k (vecmat k g (map (select J) (rows G))) (rows X) = g"
      using vecmat_inverse_cancel [OF GJ X, of g] g(1) wf(1) c(1) by simp
    then have g0: "g = zerov k" unfolding gJ using okX by simp
    have "vecmat n x (rows G0) = zerov n" unfolding g(2) g0 using okG by simp
    then have "vecmat n x (rows T) = zerov n"
      using wsum w0 okT by simp
    then have "x = zerov n" using full_rank_injective [of T x] wf(3) lx by simp
    then have "d = zerov (length (rows ?HJ))"
      using HJ(4) ld TJ wf(3) unfolding lin_indep_def x_def by simp
    then show "d = zerov (length B)" by (simp add: B_def)
  qed
  \<comment> \<open>they are combinations of the rows of \<open>G2\<close>\<close>
  have span: "\<forall>b\<in>set B. in_rowspace n (rows G2) b"
  proof
    fix b assume "b \<in> set B"
    then obtain h where h: "h \<in> set (rows ?HJ)" "b = f h" unfolding B_def by auto
    obtain e where e: "length e = length (rows ?HJ)" "h = vecmat n e (rows ?HJ)"
      using in_rowspace_member [OF okHJ h(1)] unfolding in_rowspace_def by auto
    have "in_rowspace (ncols L) (rows L) e"
      using full_column_rank_span [of L e] L e(1) lHJ kn by simp
    then obtain a where a: "length a = n" "e = vecmat (n - k) a (rows L)"
      unfolding in_rowspace_def using L lL by auto
    have okL': "\<forall>b\<in>set (rows L). length b = length (rows ?HJ)" using okL lHJ by simp
    have "vecmat n (vecmat (length (rows ?HJ)) a (rows L)) (rows ?HJ) = vecmat n a (rows Q)"
      unfolding rQ by (rule vecmat_assoc [OF okHJ okL']) (simp add: a(1) lL)
    then have 1: "h = vecmat n a (rows Q)" unfolding e(2) a(2) lHJ by simp
    have 2: "vecmat n (vecmat n a (rows Q)) (rows G0T) = vecmat n a (rows QG0T)"
      using vecmat_assoc [OF okG0T, of "rows Q" a] okQ lG0T lQ a(1) unfolding rQG0T by simp
    have 3: "vecmat n (vecmat n a (rows QG0T)) (rows M) = vecmat n a (rows G2)"
      using vecmat_assoc [OF okM, of "rows QG0T" a] okQG0T lM lQG0T a(1) unfolding rG2 by simp
    have "b = vecmat n a (rows G2)" unfolding h(2) f_def 1 2 3 ..
    moreover have "length (rows G2) = n" using wf(7) wf_matrix_length [of G2] by simp
    ultimately show "in_rowspace n (rows G2) b" using a(1) by (intro in_rowspaceI [of a]) simp_all
  qed
  have "length B \<le> rank G2"
    using indep_le_rank [of G2 B] indep span wf(7) by simp
  moreover have "length B = n - k" unfolding B_def length_map by (rule lHJ)
  ultimately show "n - k \<le> rank G2" by simp
qed

text \<open>
  C3: in step 1 of the attack, the reduced matrix consists of exactly the nonzero rows of
  the reduced row echelon form of \<open>G2\<close>.  For every public key \<open>pk\<close> returned by
  \<open>key_gen(n, k)\<close>, the rows of the matrix the attack builds from \<open>pk.G2\<close> are the nonzero
  rows of \<open>rref(pk.G2)\<close>, in their order: it contains every nonzero row and no zero row.
  It has \<open>n - k\<close> rows and \<open>n\<close> columns.
\<close>

theorem attack_G2red_nonzero_rows_generated:
  assumes kg: "key_gen n k rs = Some (Inr ((pk, sk), rs'))"
  shows "rows (attack_G2red n k pk) = filter (\<lambda>r. r \<noteq> zerov n) (rows (rref (snd pk)))
         \<and> nrows (attack_G2red n k pk) = n - k \<and> ncols (attack_G2red n k pk) = n"
proof -
  obtain G1 G2 where pk: "pk = (G1, G2)" by (cases pk)
  obtain G M T Q G0 J where sk: "sk = (G, M, T, Q, G0, J)" by (cases sk) auto
  note kg' = kg [unfolded pk sk]
  note wf = key_gen_wf [OF kg']
  have G2: "wf_matrix G2" "nrows G2 = n" "ncols G2 = n" using wf(7) by simp_all
  have kn: "k \<le> n" using wf(1) by simp
  have rk: "rank G2 = n - k" by (rule key_gen_rank_G2_eq [OF kg'])
  have 1: "rows (attack_G2red n k (G1, G2))
           = filter (\<lambda>r. r \<noteq> zerov (ncols G2)) (rows (rref G2))"
    using attack_G2red_rows_iff [OF G2(1) G2(2) kn, of G1] rk by simp
  have "length (rows (rref G2)) = n" using wf_matrix_length [OF wf_rref [OF G2(1)]] G2 by simp
  then have 2: "nrows (attack_G2red n k (G1, G2)) = n - k"
    using kn by (simp add: attack_G2red_def slice_upto_def Let_def nat_diff_distrib')
  have 3: "ncols (attack_G2red n k (G1, G2)) = n"
    using G2 by (simp add: attack_G2red_def Let_def)
  show ?thesis unfolding pk using 1 2 3 G2(3) by simp
qed

theorem attack_G2red_nonzero_rows_generated_witness:
  "\<exists>sk rs'.
     key_gen 3 2 (tape [1, 0, 1, 0, 1, 1, 0, 1, 1, 1, 1, 0, 1, 0, 0, 0, 1, 0, 0, 1, 1,
                          1, 1, 0, 1, 1, 0, 0, 1, 0, 0, 1, 1 :: gf2])
       = Some (Inr (((Matrix 2 3 [[1, 0, 1], [0, 0, 1]],
                      Matrix 3 3 [[0, 1, 0], [0, 1, 0], [0, 0, 0]]), sk), rs'))
     \<and> rows (attack_G2red 3 2
           (Matrix 2 3 [[1, 0, 1], [0, 0, 1]], Matrix 3 3 [[0, 1, 0], [0, 1, 0], [0, 0, 0 :: gf2]]))
         = [[0, 1, 0]]
     \<and> filter (\<lambda>r. r \<noteq> zerov 3)
           (rows (rref (Matrix 3 3 [[0, 1, 0], [0, 1, 0], [0, 0, 0 :: gf2]]))) = [[0, 1, 0]]"
proof -
  let ?rs = "tape [1, 0, 1, 0, 1, 1, 0, 1, 1, 1, 1, 0, 1, 0, 0, 0, 1, 0, 0, 1, 1,
                   1, 1, 0, 1, 1, 0, 0, 1, 0, 0, 1, 1 :: gf2]"
  let ?pk = "(Matrix 2 3 [[1, 0, 1], [0, 0, 1]],
              Matrix 3 3 [[0, 1, 0], [0, 1, 0], [0, 0, 0 :: gf2]])"
  have "map_option (map_sum id (\<lambda>r. fst (fst r))) (key_gen 3 2 ?rs) = Some (Inr ?pk)"
    by code_simp
  then obtain sk rs' where kg: "key_gen 3 2 ?rs = Some (Inr ((?pk, sk), rs'))"
    by (cases "key_gen 3 2 ?rs") (auto simp: map_sum_def split: sum.splits)
  have red: "rows (attack_G2red 3 2 ?pk) = [[0, 1, 0]]" by code_simp
  from attack_G2red_nonzero_rows_generated [OF kg] red
  have "filter (\<lambda>r. r \<noteq> zerov 3)
          (rows (rref (Matrix 3 3 [[0, 1, 0], [0, 1, 0], [0, 0, 0 :: gf2]]))) = [[0, 1, 0]]"
    by simp
  with kg red show ?thesis by blast
qed

section \<open>Decryption and the component Q of the secret key\<close>

text \<open>
  C10: decryption does not depend on the component \<open>Q\<close> of the secret key: two secret
  keys that differ only in \<open>Q\<close> give the same result, a plaintext or a failure, on every
  ciphertext.
\<close>

theorem dec_independent_of_Q:
  "dec n k (G, M, T, Q, G0, J) ct = dec n k (G, M, T, Q', G0, J) ct"
  by (simp add: dec_def dec_uG_def dec_Gconc_def)

end
